theory Spec2Isabelle
  imports Main "HOL-Library.Multiset"
begin

section \<open>Data model\<close>

text \<open>
  The experiment runner of \<^verbatim>\<open>src/yival/experiment/experiment_runner.py\<close> evaluates every
  data point of a data set against every variation combination.  Data points and
  combinations are opaque to the runner; they are identified by natural numbers here.
  An \<^verbatim>\<open>ExperimentResult\<close> carries the pair it was computed for, an output and the
  token usage that the runner reports to the rate limiter.
\<close>

type_synonym datum = nat
type_synonym variation = nat

record task_result =
  input_data :: datum
  combination :: variation
  raw_output :: nat
  token_usage :: nat

definition result_key :: "task_result \<Rightarrow> datum \<times> variation" where
  "result_key r = (input_data r, combination r)"

text \<open>
  The failure kinds of the evaluation engine, and the exceptions that can travel through
  the runner: a failure of the engine, the \<^verbatim>\<open>TypeError\<close> of Python when \<^verbatim>\<open>None\<close> is
  iterated, an exception raised by the rate limiter's \<^verbatim>\<open>wait\<close>, and the
  \<^verbatim>\<open>CancelledError\<close> that \<^verbatim>\<open>asyncio\<close> raises in a cancelled coroutine.
\<close>

datatype failure = ThroughputLimitExceeded | EvaluationFailure

datatype error = EngineError failure | TypeError | BudgetError | CancelledError

text \<open>
  The collaborators outside the runner.  \<open>engine k d v\<close> is what the evaluation engine
  answers for the pair \<open>(d, v)\<close> in attempt number \<open>k\<close> of the task of \<open>d\<close>: a failure, or
  an output with its token usage.  \<open>wait_raises d k\<close> tells whether the call
  \<^verbatim>\<open>rate_limiter.wait()\<close> before attempt \<open>k\<close> raises instead of returning.
\<close>

record env =
  engine :: "nat \<Rightarrow> datum \<Rightarrow> variation \<Rightarrow> failure + nat \<times> nat"
  wait_raises :: "datum \<Rightarrow> nat \<Rightarrow> bool"

section \<open>One task\<close>

text \<open>
  Modelled from the spec: \<^verbatim>\<open>run_single_input\<close> is imported from
  \<^verbatim>\<open>yival/experiment/utils.py\<close> and its body is missing.  Following section 4.3 of the
  specification it invokes the evaluation engine once per variation for the task's datum,
  produces one result per variation, and signals the failure of the engine to its caller.
\<close>

fun run_single_input :: "env \<Rightarrow> nat \<Rightarrow> datum \<Rightarrow> variation list \<Rightarrow> failure + task_result list" where
  "run_single_input e k d [] = Inr []"
| "run_single_input e k d (v # vs) =
     (case engine e k d v of
        Inl f \<Rightarrow> Inl f
      | Inr (out, cost) \<Rightarrow>
          (case run_single_input e k d vs of
             Inl f \<Rightarrow> Inl f
           | Inr rs \<Rightarrow>
               Inr (\<lparr>input_data = d, combination = v, raw_output = out, token_usage = cost\<rparr> # rs)))"

text \<open>
  Modelled from the spec: \<^verbatim>\<open>arun_single_input\<close>, the coroutine twin of
  \<^verbatim>\<open>run_single_input\<close>, is imported from the same module; its body is missing as well, and
  it follows the same contract.
\<close>

definition arun_single_input :: "env \<Rightarrow> nat \<Rightarrow> datum \<Rightarrow> variation list \<Rightarrow> failure + task_result list" where
  "arun_single_input e k d V = run_single_input e k d V"

text \<open>
  \<^verbatim>\<open>aparallel_task\<close> returns from inside the body of \<^verbatim>\<open>for _ in all_combinations\<close>: with at
  least one combination the first iteration returns what \<^verbatim>\<open>arun_single_input\<close> returns
  for the whole list, with none the loop body never runs and the coroutine returns
  \<^verbatim>\<open>None\<close>.
\<close>

definition aparallel_task :: "env \<Rightarrow> nat \<Rightarrow> datum \<Rightarrow> variation list \<Rightarrow> failure + task_result list option" where
  "aparallel_task e k d V =
     (case V of
        [] \<Rightarrow> Inr None
      | _ # _ \<Rightarrow> (case arun_single_input e k d V of Inl f \<Rightarrow> Inl f | Inr rs \<Rightarrow> Inr (Some rs)))"

text \<open>
  \<^verbatim>\<open>parallel_task\<close> draws from a rate limiter of its own and calls \<^verbatim>\<open>run_single_input\<close>
  once; there is no retry, so the attempt number is always \<open>0\<close>.
\<close>

definition parallel_task :: "env \<Rightarrow> datum \<Rightarrow> variation list \<Rightarrow> failure + task_result list" where
  "parallel_task e d V = run_single_input e 0 d V"

section \<open>The cooperative scheduler\<close>

text \<open>
  \<^verbatim>\<open>_aprocess_dataset\<close> creates one future per data point, each running the coroutine
  \<^verbatim>\<open>eval_fn_with_semaphore\<close>, and drains them with \<^verbatim>\<open>asyncio.as_completed\<close>.  The event loop
  interleaves the coroutines at their suspension points, so the scheduler is modelled
  as a transition system: a state, and one step for each resumption the event loop can
  choose.

  A coroutine is, at any moment, at one of these places:
  \<^item> \<open>Pending\<close>: created, not yet past \<^verbatim>\<open>async with semaphore\<close>;
  \<^item> \<open>Drawing\<close>: inside the semaphore, suspended in \<^verbatim>\<open>await rate_limiter.wait()\<close>;
  \<^item> \<open>Evaluating\<close>: suspended in \<^verbatim>\<open>await self.aparallel_task(...)\<close>;
  \<^item> \<open>Sleeping\<close>: in the exception handler, suspended in \<^verbatim>\<open>await asyncio.sleep(100)\<close>;
  \<^item> \<open>Returned r\<close>: finished by \<^verbatim>\<open>return resutls\<close> with value \<open>r\<close> (\<open>None\<close> is Python's
    \<^verbatim>\<open>None\<close>);
  \<^item> \<open>Raised x\<close>: finished by an exception that left the coroutine.
\<close>

datatype pc = Pending | Drawing | Evaluating | Sleeping
  | Returned "task_result list option" | Raised error

record task =
  data_point :: datum
  pc :: pc
  attempt :: nat
  slot :: bool

text \<open>The calls received by the rate limiter, each with the index of the calling task.\<close>

datatype budget_call = Wait nat | AddTokens nat nat

text \<open>
  The state of a run: the futures, the value of the semaphore, the list \<^verbatim>\<open>results\<close> of
  the enclosing function (which the coroutines see through their closure), the futures
  that are done and not yet yielded by \<^verbatim>\<open>as_completed\<close> in the order of their
  completion, the futures already yielded, the exception that left \<^verbatim>\<open>_aprocess_dataset\<close>
  if any, the coroutines whose cancellation has been requested and which have not been
  resumed since, and what the collaborators have observed: the calls to the rate limiter,
  the tasks that printed the message of the handler, the sleeps (task, seconds), and the
  updates (count, total) of the progress bar.
\<close>

record state =
  tasks :: "task list"
  semaphore :: nat
  results :: "task_result list"
  completed :: "nat list"
  drained :: "nat list"
  crashed :: "error option"
  to_cancel :: "nat list"
  budget_log :: "budget_call list"
  printed :: "nat list"
  backoffs :: "(nat \<times> nat) list"
  progress :: "(nat \<times> nat) list"

definition goto :: "nat \<Rightarrow> pc \<Rightarrow> state \<Rightarrow> state" where
  "goto i p s = s\<lparr>tasks := (tasks s)[i := (tasks s ! i)\<lparr>pc := p\<rparr>]\<rparr>"

text \<open>Entering and leaving \<^verbatim>\<open>async with semaphore\<close>.\<close>

definition acquire :: "nat \<Rightarrow> state \<Rightarrow> state" where
  "acquire i s =
     s\<lparr>semaphore := semaphore s - 1, tasks := (tasks s)[i := (tasks s ! i)\<lparr>slot := True\<rparr>]\<rparr>"

definition release :: "nat \<Rightarrow> state \<Rightarrow> state" where
  "release i s =
     s\<lparr>semaphore := semaphore s + 1, tasks := (tasks s)[i := (tasks s ! i)\<lparr>slot := False\<rparr>]\<rparr>"

text \<open>The coroutine ends: the \<^verbatim>\<open>async with\<close> block is left and the future is done.\<close>

definition finish :: "nat \<Rightarrow> pc \<Rightarrow> state \<Rightarrow> state" where
  "finish i p s = (release i (goto i p s))\<lparr>completed := completed s @ [i]\<rparr>"

text \<open>\<^verbatim>\<open>for result in resutls: rate_limiter.add_tokens(result.token_usage)\<close>\<close>

definition report_tokens :: "nat \<Rightarrow> task_result list \<Rightarrow> state \<Rightarrow> state" where
  "report_tokens i rs s =
     s\<lparr>budget_log := budget_log s @ map (\<lambda>r. AddTokens i (token_usage r)) rs\<rparr>"

text \<open>The bare \<^verbatim>\<open>except:\<close> clause: print the message, then sleep.\<close>

definition handler :: "nat \<Rightarrow> state \<Rightarrow> state" where
  "handler i s = goto i Sleeping (s\<lparr>printed := printed s @ [i]\<rparr>)"

definition backoff_seconds :: nat where
  "backoff_seconds = 100"

text \<open>The sleep is over: the loop \<^verbatim>\<open>while True\<close> starts its next round.\<close>

definition retry :: "nat \<Rightarrow> state \<Rightarrow> state" where
  "retry i s =
     goto i Drawing
       (s\<lparr>tasks := (tasks s)[i := (tasks s ! i)\<lparr>attempt := Suc (attempt (tasks s ! i))\<rparr>],
          backoffs := backoffs s @ [(i, backoff_seconds)]\<rparr>)"

text \<open>
  One resumption of the coroutine \<^verbatim>\<open>eval_fn_with_semaphore\<close> of task \<open>i\<close>.  The test
  \<^verbatim>\<open>if results:\<close> reads the list \<^verbatim>\<open>results\<close> of the enclosing function, not the local
  \<^verbatim>\<open>resutls\<close>; iterating \<^verbatim>\<open>resutls\<close> when it is \<^verbatim>\<open>None\<close> raises inside the \<^verbatim>\<open>try\<close>.
\<close>

definition task_step :: "env \<Rightarrow> variation list \<Rightarrow> nat \<Rightarrow> state \<Rightarrow> state option" where
  "task_step e V i s =
     (let t = tasks s ! i in
      case pc t of
        Pending \<Rightarrow> if 0 < semaphore s then Some (goto i Drawing (acquire i s)) else None
      | Drawing \<Rightarrow>
          if wait_raises e (data_point t) (attempt t)
          then Some (finish i (Raised BudgetError) s)
          else Some (goto i Evaluating (s\<lparr>budget_log := budget_log s @ [Wait i]\<rparr>))
      | Evaluating \<Rightarrow>
          (case aparallel_task e (attempt t) (data_point t) V of
             Inl f \<Rightarrow> Some (handler i s)
           | Inr resutls \<Rightarrow>
               if results s \<noteq> []
               then (case resutls of
                       None \<Rightarrow> Some (handler i s)
                     | Some rs \<Rightarrow> Some (finish i (Returned resutls) (report_tokens i rs s)))
               else Some (finish i (Returned resutls) s))
      | Sleeping \<Rightarrow> Some (retry i s)
      | Returned r \<Rightarrow> None
      | Raised x \<Rightarrow> None)"

text \<open>A coroutine that has ended, and the futures that are not done.\<close>

definition finished :: "task \<Rightarrow> bool" where
  "finished t = (case pc t of Returned r \<Rightarrow> True | Raised x \<Rightarrow> True | _ \<Rightarrow> False)"

definition pending_futures :: "state \<Rightarrow> nat list" where
  "pending_futures s = filter (\<lambda>i. \<not> finished (tasks s ! i)) [0..<length (tasks s)]"

text \<open>
  \<^verbatim>\<open>_aprocess_dataset\<close> is driven by \<^verbatim>\<open>asyncio.run\<close> (in \<^verbatim>\<open>run\<close>).  When an exception leaves
  \<^verbatim>\<open>_aprocess_dataset\<close>, \<^verbatim>\<open>asyncio.run\<close> cancels every coroutine that has not ended, and
  lets them run until all have.
\<close>

definition crash :: "error \<Rightarrow> state \<Rightarrow> state" where
  "crash x s = s\<lparr>crashed := Some x, to_cancel := pending_futures s\<rparr>"

text \<open>
  The first resumption of a coroutine after its cancellation was requested:
  \<^verbatim>\<open>CancelledError\<close> is raised at the \<^verbatim>\<open>await\<close> where it is suspended.  In the acquisition of
  the semaphore the coroutine ends before it has a slot; in \<^verbatim>\<open>rate_limiter.wait()\<close> and in
  \<^verbatim>\<open>asyncio.sleep(100)\<close>, which are outside the \<^verbatim>\<open>try\<close>, the exception leaves the
  \<^verbatim>\<open>async with\<close> block and the coroutine; in \<^verbatim>\<open>aparallel_task\<close> it is caught by the bare
  \<^verbatim>\<open>except:\<close> like any other exception, and the coroutine goes on.
\<close>

definition delivered :: "nat \<Rightarrow> state \<Rightarrow> state" where
  "delivered i s = s\<lparr>to_cancel := removeAll i (to_cancel s)\<rparr>"

definition abandon :: "nat \<Rightarrow> state \<Rightarrow> state" where
  "abandon i s = (goto i (Raised CancelledError) s)\<lparr>completed := completed s @ [i]\<rparr>"

definition cancel_step :: "nat \<Rightarrow> state \<Rightarrow> state option" where
  "cancel_step i s =
     (case pc (tasks s ! i) of
        Pending \<Rightarrow> Some (abandon i (delivered i s))
      | Drawing \<Rightarrow> Some (finish i (Raised CancelledError) (delivered i s))
      | Evaluating \<Rightarrow> Some (handler i (delivered i s))
      | Sleeping \<Rightarrow> Some (finish i (Raised CancelledError) (delivered i s))
      | Returned r \<Rightarrow> None
      | Raised x \<Rightarrow> None)"

text \<open>
  One round of \<^verbatim>\<open>for future in tqdm(asyncio.as_completed(futures), total=total_tasks)\<close>:
  the next completed future is awaited, which gives its value or raises its exception,
  and \<^verbatim>\<open>results.extend\<close> raises \<^verbatim>\<open>TypeError\<close> on \<^verbatim>\<open>None\<close>.  The progress bar counts a round
  once its body is over.
\<close>

definition main_step :: "nat \<Rightarrow> state \<Rightarrow> state option" where
  "main_step tot s =
     (case completed s of
        [] \<Rightarrow> None
      | i # rest \<Rightarrow>
          (let s1 = s\<lparr>completed := rest, drained := drained s @ [i]\<rparr> in
           case pc (tasks s ! i) of
             Returned (Some rs) \<Rightarrow>
               Some (s1\<lparr>results := results s @ rs,
                        progress := progress s @ [(Suc (length (drained s)), tot)]\<rparr>)
           | Returned None \<Rightarrow> Some (crash TypeError s1)
           | Raised x \<Rightarrow> Some (crash x s1)
           | _ \<Rightarrow> None))"

text \<open>
  What the event loop resumes next: a task's coroutine, or the draining loop.  The
  draining loop is over once an exception has left it; the coroutines go on, and a
  coroutine whose cancellation is pending is resumed with the \<^verbatim>\<open>CancelledError\<close>.
\<close>

datatype action = Task nat | Main

definition step :: "env \<Rightarrow> variation list \<Rightarrow> nat \<Rightarrow> action \<Rightarrow> state \<Rightarrow> state option" where
  "step e V tot a s =
     (case a of
        Task i \<Rightarrow>
          if i < length (tasks s)
          then (if i \<in> set (to_cancel s) then cancel_step i s else task_step e V i s)
          else None
      | Main \<Rightarrow> if crashed s \<noteq> None then None else main_step tot s)"

fun exec :: "env \<Rightarrow> variation list \<Rightarrow> nat \<Rightarrow> action list \<Rightarrow> state \<Rightarrow> state option" where
  "exec e V tot [] s = Some s"
| "exec e V tot (a # as) s =
     (case step e V tot a s of None \<Rightarrow> None | Some s' \<Rightarrow> exec e V tot as s')"

text \<open>
  The state when the draining loop starts: one pending future per data point, in the
  order of the batches, and \<^verbatim>\<open>asyncio.Semaphore(20)\<close>.
\<close>

definition new_task :: "datum \<Rightarrow> task" where
  "new_task d = \<lparr>data_point = d, pc = Pending, attempt = 0, slot = False\<rparr>"

definition init :: "datum list list \<Rightarrow> state" where
  "init data_batches =
     \<lparr>tasks = map new_task (concat data_batches), semaphore = 20, results = [],
      completed = [], drained = [], crashed = None, to_cancel = [], budget_log = [],
      printed = [], backoffs = [], progress = []\<rparr>"

definition total_tasks :: "datum list list \<Rightarrow> variation list \<Rightarrow> nat" where
  "total_tasks data_batches V = sum_list (map length data_batches) * length V"

text \<open>
  How \<^verbatim>\<open>_aprocess_dataset\<close> stands: left by an exception, returned \<^verbatim>\<open>results\<close> (every future
  has been yielded), or still under way (\<open>None\<close>).
\<close>

definition outcome :: "state \<Rightarrow> (error + task_result list) option" where
  "outcome s =
     (case crashed s of
        Some x \<Rightarrow> Some (Inl x)
      | None \<Rightarrow> if length (drained s) = length (tasks s) then Some (Inr (results s)) else None)"

text \<open>
  The body of \<^verbatim>\<open>_aprocess_dataset\<close>, with the value of the expression statement of line 62
  and the total handed to the progress bar as parameters, under the schedule \<open>sched\<close> of
  the event loop.  A schedule that asks for a step that is not possible has no run.
\<close>

definition aprocess_body ::
  "nat \<Rightarrow> nat \<Rightarrow> env \<Rightarrow> datum list list \<Rightarrow> variation list \<Rightarrow> action list
     \<Rightarrow> (error + task_result list) option" where
  "aprocess_body line62 tot e data_batches V sched =
     (case exec e V tot sched (init data_batches) of
        None \<Rightarrow> None
      | Some s \<Rightarrow> outcome s)"

definition aprocess_dataset ::
  "env \<Rightarrow> datum list list \<Rightarrow> variation list \<Rightarrow> action list \<Rightarrow> (error + task_result list) option" where
  "aprocess_dataset e data_batches V sched =
     aprocess_body (sum_list (map length data_batches) * length V)
       (total_tasks data_batches V) e data_batches V sched"

text \<open>
  \<^verbatim>\<open>asyncio.run(self._aprocess_dataset(...))\<close>: the value \<^verbatim>\<open>_aprocess_dataset\<close> returns, or
  the exception that left it once every cancelled coroutine has ended.
\<close>

definition asyncio_run ::
  "env \<Rightarrow> datum list list \<Rightarrow> variation list \<Rightarrow> action list \<Rightarrow> (error + task_result list) option" where
  "asyncio_run e data_batches V sched =
     (case exec e V (total_tasks data_batches V) sched (init data_batches) of
        None \<Rightarrow> None
      | Some s \<Rightarrow>
          (case crashed s of
             None \<Rightarrow> outcome s
           | Some x \<Rightarrow> if list_all finished (tasks s) then Some (Inl x) else None))"

section \<open>The thread-pool scheduler\<close>

text \<open>
  \<^verbatim>\<open>executor.map\<close> yields the results of \<^verbatim>\<open>parallel_task\<close> in the order of the data points,
  and re-raises the exception of a task when its turn comes; \<^verbatim>\<open>results.extend(res)\<close>
  appends each.  The progress bar of this variant is only written to and is left out.
\<close>

fun extend_all :: "env \<Rightarrow> variation list \<Rightarrow> datum list \<Rightarrow> task_result list \<Rightarrow> failure + task_result list" where
  "extend_all e V [] acc = Inr acc"
| "extend_all e V (d # ds) acc =
     (case parallel_task e d V of
        Inl f \<Rightarrow> Inl f
      | Inr res \<Rightarrow> extend_all e V ds (acc @ res))"

fun process_batches :: "env \<Rightarrow> variation list \<Rightarrow> datum list list \<Rightarrow> task_result list \<Rightarrow> failure + task_result list" where
  "process_batches e V [] acc = Inr acc"
| "process_batches e V (data # rest) acc =
     (case extend_all e V data acc of
        Inl f \<Rightarrow> Inl f
      | Inr acc' \<Rightarrow> process_batches e V rest acc')"

definition process_dataset :: "env \<Rightarrow> datum list list \<Rightarrow> variation list \<Rightarrow> failure + task_result list" where
  "process_dataset e data_points V = process_batches e V data_points []"

text \<open>
  The pool of one batch as a transition system.  A job is queued, or on a worker thread:
  first in the call \<^verbatim>\<open>RateLimiter(30 / 60)()\<close>, then in \<^verbatim>\<open>run_single_input\<close>; or it is
  finished.  A \<^verbatim>\<open>ThreadPoolExecutor\<close> with \<open>max_workers\<close> threads takes a queued job only
  when a thread is free.
\<close>

datatype worker_pc = Queued | Limiting | Working | Finished "failure + task_result list"

record job =
  job_datum :: datum
  job_pc :: worker_pc

record pool =
  jobs :: "job list"
  draws :: "nat list"

definition on_worker :: "job \<Rightarrow> bool" where
  "on_worker j = (job_pc j = Limiting \<or> job_pc j = Working)"

definition pool_step :: "nat \<Rightarrow> env \<Rightarrow> variation list \<Rightarrow> nat \<Rightarrow> pool \<Rightarrow> pool option" where
  "pool_step max_workers e V i p =
     (if i < length (jobs p) then
        (let j = jobs p ! i in
         case job_pc j of
           Queued \<Rightarrow>
             if length (filter on_worker (jobs p)) < max_workers
             then Some (p\<lparr>jobs := (jobs p)[i := j\<lparr>job_pc := Limiting\<rparr>]\<rparr>)
             else None
         | Limiting \<Rightarrow>
             Some (p\<lparr>jobs := (jobs p)[i := j\<lparr>job_pc := Working\<rparr>], draws := draws p @ [i]\<rparr>)
         | Working \<Rightarrow>
             Some (p\<lparr>jobs := (jobs p)[i := j\<lparr>job_pc := Finished (run_single_input e 0 (job_datum j) V)\<rparr>]\<rparr>)
         | Finished r \<Rightarrow> None)
      else None)"

fun pool_exec :: "nat \<Rightarrow> env \<Rightarrow> variation list \<Rightarrow> nat list \<Rightarrow> pool \<Rightarrow> pool option" where
  "pool_exec w e V [] p = Some p"
| "pool_exec w e V (i # is) p =
     (case pool_step w e V i p of None \<Rightarrow> None | Some p' \<Rightarrow> pool_exec w e V is p')"

definition pool_init :: "datum list \<Rightarrow> pool" where
  "pool_init data = \<lparr>jobs = map (\<lambda>d. \<lparr>job_datum = d, job_pc = Queued\<rparr>) data, draws = []\<rparr>"

section \<open>The entry point\<close>

text \<open>
  \<^verbatim>\<open>run\<close> works on files that hold pickled experiments; the file system is a map from
  paths to experiments.  \<^verbatim>\<open>generate_experiment\<close>, the selection strategy and the improver
  are imported collaborators and are parameters of the runner, next to what its
  configuration yields: the source type, the batches of the data set and the variation
  combinations.
\<close>

record Experiment =
  exp_results :: "task_result list"
  selection_output :: "nat option"
  improver_output :: "nat option"

record runner =
  source_type :: string
  dataset :: "datum list list"
  combinations :: "variation list"
  generate_experiment :: "task_result list \<Rightarrow> Experiment"
  strategy :: "(Experiment \<Rightarrow> nat) option"
  improver :: "(Experiment \<Rightarrow> nat) option"

type_synonym files = "string \<rightharpoonup> Experiment"

text \<open>What a run does, as seen from outside, in order.\<close>

datatype run_event =
    Loaded string
  | ReadersRegistered
  | DatasetProcessed bool
  | ExperimentGenerated
  | SelectionExecuted
  | Improved
  | Dumped string
  | Displayed Experiment

text \<open>Python's truth value of an \<^verbatim>\<open>Optional[str]\<close>: neither \<^verbatim>\<open>None\<close> nor empty.\<close>

definition given :: "string option \<Rightarrow> bool" where
  "given p = (case p of None \<Rightarrow> False | Some x \<Rightarrow> x \<noteq> [])"

text \<open>
  The \<^verbatim>\<open>else\<close> branch of \<^verbatim>\<open>run\<close>: the data set is processed by one of the two schedulers,
  the experiment is generated, then selection and improvement run if configured.
\<close>

definition evaluate ::
  "runner \<Rightarrow> env \<Rightarrow> action list \<Rightarrow> bool \<Rightarrow> (error + Experiment \<times> run_event list) option" where
  "evaluate r e sched async_eval =
     (case (if async_eval then asyncio_run e (dataset r) (combinations r) sched
            else (case process_dataset e (dataset r) (combinations r) of
                    Inl f \<Rightarrow> Some (Inl (EngineError f))
                  | Inr rs \<Rightarrow> Some (Inr rs))) of
        None \<Rightarrow> None
      | Some (Inl x) \<Rightarrow> Some (Inl x)
      | Some (Inr rs) \<Rightarrow>
          (let ex0 = generate_experiment r rs;
               ex1 = (case strategy r of
                        None \<Rightarrow> ex0
                      | Some st \<Rightarrow> ex0\<lparr>selection_output := Some (st ex0)\<rparr>);
               ex2 = (case improver r of
                        None \<Rightarrow> ex1
                      | Some im \<Rightarrow> ex1\<lparr>improver_output := Some (im ex1)\<rparr>)
           in Some (Inr (ex2,
                [ReadersRegistered, DatasetProcessed async_eval, ExperimentGenerated]
                @ (if strategy r = None then [] else [SelectionExecuted])
                @ (if improver r = None then [] else [Improved])))))"

definition run ::
  "runner \<Rightarrow> env \<Rightarrow> action list \<Rightarrow> files \<Rightarrow> bool \<Rightarrow> string option \<Rightarrow> string option \<Rightarrow> bool
     \<Rightarrow> (error + files \<times> run_event list) option" where
  "run r e sched fs display output_path experiment_input_path async_eval =
     (if source_type r = ''dataset'' \<or> source_type r = ''machine_generated'' then
        (case (if given experiment_input_path \<and> fs (the experiment_input_path) \<noteq> None
               then Some (Inr (the (fs (the experiment_input_path)),
                               [Loaded (the experiment_input_path)]))
               else evaluate r e sched async_eval) of
           None \<Rightarrow> None
         | Some (Inl x) \<Rightarrow> Some (Inl x)
         | Some (Inr (ex, evs)) \<Rightarrow>
             Some (Inr
               (if given output_path then fs(the output_path \<mapsto> ex) else fs,
                evs @ (if given output_path then [Dumped (the output_path)] else [])
                    @ (if display then [Displayed ex] else []))))
      else if source_type r = ''user_input'' then
        Some (Inr (fs, [Displayed \<lparr>exp_results = [], selection_output = None, improver_output = None\<rparr>]))
      else Some (Inr (fs, [])))"

text \<open>The defaults of the parameters of \<^verbatim>\<open>run\<close>.\<close>

definition default_display :: bool where
  "default_display = True"

definition default_output_path :: "string option" where
  "default_output_path = Some ''abc.pkl''"

definition default_experiment_input_path :: "string option" where
  "default_experiment_input_path = Some ''abc.pkl''"

definition default_async_eval :: bool where
  "default_async_eval = False"

definition run_default :: "runner \<Rightarrow> env \<Rightarrow> action list \<Rightarrow> files \<Rightarrow> (error + files \<times> run_event list) option" where
  "run_default r e sched fs =
     run r e sched fs default_display default_output_path default_experiment_input_path
       default_async_eval"

section \<open>Sample collaborators\<close>

text \<open>
  Three evaluation engines for concrete runs: one that always answers, with a token
  usage of 7; one whose first attempt for every data point ends in a failure that is
  not a throughput limit; one that reports a throughput limit in the first two attempts.
  None of them makes the rate limiter raise.
\<close>

definition steady :: env where
  "steady = \<lparr>engine = (\<lambda>k d v. Inr (d + v, 7)), wait_raises = (\<lambda>d k. False)\<rparr>"

definition broken_once :: env where
  "broken_once =
     \<lparr>engine = (\<lambda>k d v. if k = 0 then Inl EvaluationFailure else Inr (d + v, 7)),
      wait_raises = (\<lambda>d k. False)\<rparr>"

definition limited_twice :: env where
  "limited_twice =
     \<lparr>engine = (\<lambda>k d v. if k < 2 then Inl ThroughputLimitExceeded else Inr (d + v, 7)),
      wait_raises = (\<lambda>d k. False)\<rparr>"

section \<open>More sample collaborators\<close>

text \<open>
  A rate limiter whose \<^verbatim>\<open>wait\<close> always raises, and one whose \<^verbatim>\<open>wait\<close> raises for the data
  point 1 only.
\<close>

definition budget_down :: env where
  "budget_down = \<lparr>engine = (\<lambda>k d v. Inr (d + v, 7)), wait_raises = (\<lambda>d k. True)\<rparr>"

definition budget_down_for_one :: env where
  "budget_down_for_one =
     \<lparr>engine = (\<lambda>k d v. Inr (d + v, 7)), wait_raises = (\<lambda>d k. d = 1)\<rparr>"

text \<open>
  A pickled experiment, an experiment generator that keeps the results as they are, a
  runner over a data set of two data points and one combination with an improver and no
  selection strategy, and the same runner for interactive input.
\<close>

definition stored :: Experiment where
  "stored = \<lparr>exp_results = [], selection_output = Some 3, improver_output = None\<rparr>"

definition plain :: "task_result list \<Rightarrow> Experiment" where
  "plain rs = \<lparr>exp_results = rs, selection_output = None, improver_output = None\<rparr>"

definition batch_runner :: runner where
  "batch_runner =
     \<lparr>source_type = ''dataset'', dataset = [[1, 2]], combinations = [5],
      generate_experiment = plain, strategy = None, improver = Some (\<lambda>ex. 3)\<rparr>"

definition interactive_runner :: runner where
  "interactive_runner = batch_runner\<lparr>source_type := ''user_input''\<rparr>"

section \<open>Properties of runs\<close>

text \<open>
  The predicates in which the properties of the schedulers are stated.  A task is inside
  the evaluation section when it is past \<^verbatim>\<open>async with semaphore\<close> and has not left it;
  the holders are the tasks that own a slot of the semaphore.
\<close>

definition in_section :: "task \<Rightarrow> bool" where
  "in_section t = (pc t = Drawing \<or> pc t = Evaluating \<or> pc t = Sleeping)"

definition holders :: "state \<Rightarrow> nat" where
  "holders s = length (filter slot (tasks s))"

definition slots_ok :: "state \<Rightarrow> bool" where
  "slots_ok s =
     (semaphore s + holders s = 20
      \<and> (\<forall>i<length (tasks s). slot (tasks s ! i) = in_section (tasks s ! i)))"

text \<open>What a coroutine adds to \<^verbatim>\<open>results\<close> when it is drained.\<close>

definition contribution :: "task \<Rightarrow> task_result list" where
  "contribution t = (case pc t of Returned (Some rs) \<Rightarrow> rs | _ \<Rightarrow> [])"

text \<open>
  The futures that are done are exactly those in the two queues, none twice; while the
  run has not been ended by an exception, every drained future returned a list.
\<close>

definition queues_ok :: "state \<Rightarrow> bool" where
  "queues_ok s =
     (distinct (drained s @ completed s)
      \<and> (\<forall>i. i \<in> set (drained s @ completed s) \<longleftrightarrow> i < length (tasks s) \<and> finished (tasks s ! i))
      \<and> (crashed s = None \<longrightarrow> (\<forall>i \<in> set (drained s). \<exists>rs. pc (tasks s ! i) = Returned (Some rs))))"

definition results_ok :: "state \<Rightarrow> bool" where
  "results_ok s = (results s = concat (map (\<lambda>i. contribution (tasks s ! i)) (drained s)))"

text \<open>What a coroutine returned is what \<^verbatim>\<open>aparallel_task\<close> gave in its last attempt.\<close>

definition returns_ok :: "env \<Rightarrow> variation list \<Rightarrow> state \<Rightarrow> bool" where
  "returns_ok e V s =
     (\<forall>i<length (tasks s). \<forall>r. pc (tasks s ! i) = Returned r \<longrightarrow>
        aparallel_task e (attempt (tasks s ! i)) (data_point (tasks s ! i)) V = Inr r)"

text \<open>
  Attempt \<open>k\<close> for the datum \<open>d\<close> cannot succeed: the engine fails, or there is nothing to
  return.  The current attempt of task \<open>i\<close> fails in the state \<open>s\<close> when an exception is raised
  inside the \<^verbatim>\<open>try\<close>: by the engine, or by the iteration over \<^verbatim>\<open>None\<close>.  The failed attempts
  of a task are those before the current one, and the current one while the task sleeps in
  the handler.
\<close>

definition failed :: "env \<Rightarrow> variation list \<Rightarrow> datum \<Rightarrow> nat \<Rightarrow> bool" where
  "failed e V d k =
     (case aparallel_task e k d V of Inl f \<Rightarrow> True | Inr None \<Rightarrow> True | Inr (Some rs) \<Rightarrow> False)"

definition attempt_fails :: "env \<Rightarrow> variation list \<Rightarrow> state \<Rightarrow> nat \<Rightarrow> bool" where
  "attempt_fails e V s i =
     (case aparallel_task e (attempt (tasks s ! i)) (data_point (tasks s ! i)) V of
        Inl f \<Rightarrow> True
      | Inr None \<Rightarrow> results s \<noteq> []
      | Inr (Some rs) \<Rightarrow> False)"

definition failed_attempts :: "task \<Rightarrow> nat" where
  "failed_attempts t = (if pc t = Sleeping then Suc (attempt t) else attempt t)"

definition backoffs_of :: "nat \<Rightarrow> state \<Rightarrow> (nat \<times> nat) list" where
  "backoffs_of i s = filter (\<lambda>p. fst p = i) (backoffs s)"

text \<open>
  Every sleep of a task is followed by its next attempt.  The handler is entered as often
  as attempts have failed, as long as no cancellation has been delivered; a task that was
  cancelled in its sleep has printed once more than it has retried.
\<close>

definition retries_ok :: "env \<Rightarrow> variation list \<Rightarrow> state \<Rightarrow> bool" where
  "retries_ok e V s =
     (\<forall>i<length (tasks s).
        backoffs_of i s = replicate (attempt (tasks s ! i)) (i, backoff_seconds)
        \<and> ((\<forall>x. pc (tasks s ! i) \<noteq> Raised x) \<longrightarrow>
              length (filter (\<lambda>j. j = i) (printed s)) = failed_attempts (tasks s ! i))
        \<and> (crashed s = None \<longrightarrow>
              (\<forall>k<failed_attempts (tasks s ! i). failed e V (data_point (tasks s ! i)) k)))"

text \<open>Cancellation is requested only after an exception has left the draining loop.\<close>

definition cancel_ok :: "state \<Rightarrow> bool" where
  "cancel_ok s = (crashed s = None \<longrightarrow> to_cancel s = [])"

text \<open>All invariants of the cooperative scheduler together.\<close>

definition consistent :: "env \<Rightarrow> variation list \<Rightarrow> state \<Rightarrow> bool" where
  "consistent e V s =
     (slots_ok s \<and> queues_ok s \<and> results_ok s \<and> returns_ok e V s \<and> retries_ok e V s
      \<and> cancel_ok s)"

text \<open>A state without what the progress bar has shown.\<close>

definition silent :: "state \<Rightarrow> state" where
  "silent s = s\<lparr>progress := []\<rparr>"

section \<open>Basic facts about the steps\<close>

lemma length_filter_update:
  "i < length xs \<Longrightarrow>
   length (filter P (xs[i := y])) + (if P (xs ! i) then 1 else 0)
     = length (filter P xs) + (if P y then 1 else 0)"
proof (induction xs arbitrary: i)
  case Nil
  then show ?case by simp
next
  case (Cons x xs)
  then show ?case by (cases i) auto
qed

lemma goto_fields [simp]:
  "tasks (goto i p s) = (tasks s)[i := (tasks s ! i)\<lparr>pc := p\<rparr>]"
  "semaphore (goto i p s) = semaphore s"
  "results (goto i p s) = results s"
  "completed (goto i p s) = completed s"
  "drained (goto i p s) = drained s"
  "crashed (goto i p s) = crashed s"
  "to_cancel (goto i p s) = to_cancel s"
  "budget_log (goto i p s) = budget_log s"
  "printed (goto i p s) = printed s"
  "backoffs (goto i p s) = backoffs s"
  "progress (goto i p s) = progress s"
  by (simp_all add: goto_def)

lemma acquire_fields [simp]:
  "tasks (acquire i s) = (tasks s)[i := (tasks s ! i)\<lparr>slot := True\<rparr>]"
  "semaphore (acquire i s) = semaphore s - 1"
  "results (acquire i s) = results s"
  "completed (acquire i s) = completed s"
  "drained (acquire i s) = drained s"
  "crashed (acquire i s) = crashed s"
  "to_cancel (acquire i s) = to_cancel s"
  "budget_log (acquire i s) = budget_log s"
  "printed (acquire i s) = printed s"
  "backoffs (acquire i s) = backoffs s"
  "progress (acquire i s) = progress s"
  by (simp_all add: acquire_def)

lemma finish_tasks [simp]:
  "tasks (finish i p s) = (tasks s)[i := (tasks s ! i)\<lparr>pc := p, slot := False\<rparr>]"
  by (cases "i < length (tasks s)")
     (simp_all add: finish_def release_def goto_def list_update_beyond)

lemma finish_fields [simp]:
  "semaphore (finish i p s) = Suc (semaphore s)"
  "results (finish i p s) = results s"
  "completed (finish i p s) = completed s @ [i]"
  "drained (finish i p s) = drained s"
  "crashed (finish i p s) = crashed s"
  "to_cancel (finish i p s) = to_cancel s"
  "budget_log (finish i p s) = budget_log s"
  "printed (finish i p s) = printed s"
  "backoffs (finish i p s) = backoffs s"
  "progress (finish i p s) = progress s"
  by (simp_all add: finish_def release_def goto_def)

lemma report_tokens_fields [simp]:
  "tasks (report_tokens i rs s) = tasks s"
  "semaphore (report_tokens i rs s) = semaphore s"
  "results (report_tokens i rs s) = results s"
  "completed (report_tokens i rs s) = completed s"
  "drained (report_tokens i rs s) = drained s"
  "crashed (report_tokens i rs s) = crashed s"
  "to_cancel (report_tokens i rs s) = to_cancel s"
  "budget_log (report_tokens i rs s) = budget_log s @ map (\<lambda>r. AddTokens i (token_usage r)) rs"
  "printed (report_tokens i rs s) = printed s"
  "backoffs (report_tokens i rs s) = backoffs s"
  "progress (report_tokens i rs s) = progress s"
  by (simp_all add: report_tokens_def)

lemma handler_fields [simp]:
  "tasks (handler i s) = (tasks s)[i := (tasks s ! i)\<lparr>pc := Sleeping\<rparr>]"
  "semaphore (handler i s) = semaphore s"
  "results (handler i s) = results s"
  "completed (handler i s) = completed s"
  "drained (handler i s) = drained s"
  "crashed (handler i s) = crashed s"
  "to_cancel (handler i s) = to_cancel s"
  "budget_log (handler i s) = budget_log s"
  "printed (handler i s) = printed s @ [i]"
  "backoffs (handler i s) = backoffs s"
  "progress (handler i s) = progress s"
  by (simp_all add: handler_def)

lemma retry_tasks [simp]:
  "tasks (retry i s) =
     (tasks s)[i := (tasks s ! i)\<lparr>attempt := Suc (attempt (tasks s ! i)), pc := Drawing\<rparr>]"
  by (cases "i < length (tasks s)") (simp_all add: retry_def goto_def list_update_beyond)

lemma retry_fields [simp]:
  "semaphore (retry i s) = semaphore s"
  "results (retry i s) = results s"
  "completed (retry i s) = completed s"
  "drained (retry i s) = drained s"
  "crashed (retry i s) = crashed s"
  "to_cancel (retry i s) = to_cancel s"
  "budget_log (retry i s) = budget_log s"
  "printed (retry i s) = printed s"
  "backoffs (retry i s) = backoffs s @ [(i, backoff_seconds)]"
  "progress (retry i s) = progress s"
  by (simp_all add: retry_def goto_def)

lemma init_fields [simp]:
  "tasks (init b) = map new_task (concat b)"
  "semaphore (init b) = 20"
  "results (init b) = []"
  "completed (init b) = []"
  "drained (init b) = []"
  "crashed (init b) = None"
  "to_cancel (init b) = []"
  "budget_log (init b) = []"
  "printed (init b) = []"
  "backoffs (init b) = []"
  "progress (init b) = []"
  by (simp_all add: init_def)

lemma new_task_fields [simp]:
  "data_point (new_task d) = d"
  "pc (new_task d) = Pending"
  "attempt (new_task d) = 0"
  "slot (new_task d) = False"
  by (simp_all add: new_task_def)

lemma delivered_fields [simp]:
  "tasks (delivered i s) = tasks s"
  "semaphore (delivered i s) = semaphore s"
  "results (delivered i s) = results s"
  "completed (delivered i s) = completed s"
  "drained (delivered i s) = drained s"
  "crashed (delivered i s) = crashed s"
  "to_cancel (delivered i s) = removeAll i (to_cancel s)"
  "budget_log (delivered i s) = budget_log s"
  "printed (delivered i s) = printed s"
  "backoffs (delivered i s) = backoffs s"
  "progress (delivered i s) = progress s"
  by (simp_all add: delivered_def)

lemma abandon_fields [simp]:
  "tasks (abandon i s) = (tasks s)[i := (tasks s ! i)\<lparr>pc := Raised CancelledError\<rparr>]"
  "semaphore (abandon i s) = semaphore s"
  "results (abandon i s) = results s"
  "completed (abandon i s) = completed s @ [i]"
  "drained (abandon i s) = drained s"
  "crashed (abandon i s) = crashed s"
  "to_cancel (abandon i s) = to_cancel s"
  "budget_log (abandon i s) = budget_log s"
  "printed (abandon i s) = printed s"
  "backoffs (abandon i s) = backoffs s"
  "progress (abandon i s) = progress s"
  by (simp_all add: abandon_def)

lemma crash_fields [simp]:
  "tasks (crash x s) = tasks s"
  "semaphore (crash x s) = semaphore s"
  "results (crash x s) = results s"
  "completed (crash x s) = completed s"
  "drained (crash x s) = drained s"
  "crashed (crash x s) = Some x"
  "to_cancel (crash x s) = pending_futures s"
  "budget_log (crash x s) = budget_log s"
  "printed (crash x s) = printed s"
  "backoffs (crash x s) = backoffs s"
  "progress (crash x s) = progress s"
  by (simp_all add: crash_def)

lemma pending_futures_queues [simp]:
  "pending_futures (s\<lparr>completed := c, drained := d\<rparr>) = pending_futures s"
  by (simp add: pending_futures_def)

text \<open>Every step is one of fifteen cases.\<close>

lemma task_stepE [consumes 1, case_names acquire draw draw_raises eval_fails iterate_none
    return_reported return_silent wake]:
  assumes "task_step e V i s = Some s'"
  obtains
    "pc (tasks s ! i) = Pending" "0 < semaphore s" "s' = goto i Drawing (acquire i s)"
  | "pc (tasks s ! i) = Drawing"
      "\<not> wait_raises e (data_point (tasks s ! i)) (attempt (tasks s ! i))"
      "s' = goto i Evaluating (s\<lparr>budget_log := budget_log s @ [Wait i]\<rparr>)"
  | "pc (tasks s ! i) = Drawing"
      "wait_raises e (data_point (tasks s ! i)) (attempt (tasks s ! i))"
      "s' = finish i (Raised BudgetError) s"
  | f where "pc (tasks s ! i) = Evaluating"
      "aparallel_task e (attempt (tasks s ! i)) (data_point (tasks s ! i)) V = Inl f"
      "s' = handler i s"
  | "pc (tasks s ! i) = Evaluating"
      "aparallel_task e (attempt (tasks s ! i)) (data_point (tasks s ! i)) V = Inr None"
      "results s \<noteq> []" "s' = handler i s"
  | rs where "pc (tasks s ! i) = Evaluating"
      "aparallel_task e (attempt (tasks s ! i)) (data_point (tasks s ! i)) V = Inr (Some rs)"
      "results s \<noteq> []" "s' = finish i (Returned (Some rs)) (report_tokens i rs s)"
  | r where "pc (tasks s ! i) = Evaluating"
      "aparallel_task e (attempt (tasks s ! i)) (data_point (tasks s ! i)) V = Inr r"
      "results s = []" "s' = finish i (Returned r) s"
  | "pc (tasks s ! i) = Sleeping" "s' = retry i s"
proof (cases "pc (tasks s ! i)")
  case Pending
  with assms that(1) show ?thesis
    by (auto simp: task_step_def Let_def split: if_splits)
next
  case Drawing
  with assms that(2,3) show ?thesis
    by (auto simp: task_step_def Let_def split: if_splits)
next
  case Evaluating
  show ?thesis
  proof (cases "aparallel_task e (attempt (tasks s ! i)) (data_point (tasks s ! i)) V")
    case (Inl f)
    with assms Evaluating that(4) show ?thesis
      by (auto simp: task_step_def Let_def)
  next
    case (Inr r)
    show ?thesis
    proof (cases "results s = []")
      case True
      with assms Evaluating Inr that(7) show ?thesis
        by (auto simp: task_step_def Let_def)
    next
      case False
      with assms Evaluating Inr that(5,6) show ?thesis
        by (cases r) (auto simp: task_step_def Let_def)
    qed
  qed
next
  case Sleeping
  with assms that(8) show ?thesis
    by (auto simp: task_step_def Let_def)
next
  case (Returned r)
  with assms show ?thesis by (auto simp: task_step_def Let_def)
next
  case (Raised x)
  with assms show ?thesis by (auto simp: task_step_def Let_def)
qed

lemma stepE [consumes 1, case_names acquire draw draw_raises eval_fails iterate_none
    return_reported return_silent wake cancel_pending cancel_drawing cancel_evaluating
    cancel_sleeping drain drain_none drain_raised]:
  assumes "step e V tot a s = Some s'"
  obtains
    i where "a = Task i" "i < length (tasks s)" "i \<notin> set (to_cancel s)"
      "pc (tasks s ! i) = Pending" "0 < semaphore s" "s' = goto i Drawing (acquire i s)"
  | i where "a = Task i" "i < length (tasks s)" "i \<notin> set (to_cancel s)"
      "pc (tasks s ! i) = Drawing"
      "\<not> wait_raises e (data_point (tasks s ! i)) (attempt (tasks s ! i))"
      "s' = goto i Evaluating (s\<lparr>budget_log := budget_log s @ [Wait i]\<rparr>)"
  | i where "a = Task i" "i < length (tasks s)" "i \<notin> set (to_cancel s)"
      "pc (tasks s ! i) = Drawing"
      "wait_raises e (data_point (tasks s ! i)) (attempt (tasks s ! i))"
      "s' = finish i (Raised BudgetError) s"
  | i f where "a = Task i" "i < length (tasks s)" "i \<notin> set (to_cancel s)"
      "pc (tasks s ! i) = Evaluating"
      "aparallel_task e (attempt (tasks s ! i)) (data_point (tasks s ! i)) V = Inl f"
      "s' = handler i s"
  | i where "a = Task i" "i < length (tasks s)" "i \<notin> set (to_cancel s)"
      "pc (tasks s ! i) = Evaluating"
      "aparallel_task e (attempt (tasks s ! i)) (data_point (tasks s ! i)) V = Inr None"
      "results s \<noteq> []" "s' = handler i s"
  | i rs where "a = Task i" "i < length (tasks s)" "i \<notin> set (to_cancel s)"
      "pc (tasks s ! i) = Evaluating"
      "aparallel_task e (attempt (tasks s ! i)) (data_point (tasks s ! i)) V = Inr (Some rs)"
      "results s \<noteq> []" "s' = finish i (Returned (Some rs)) (report_tokens i rs s)"
  | i r where "a = Task i" "i < length (tasks s)" "i \<notin> set (to_cancel s)"
      "pc (tasks s ! i) = Evaluating"
      "aparallel_task e (attempt (tasks s ! i)) (data_point (tasks s ! i)) V = Inr r"
      "results s = []" "s' = finish i (Returned r) s"
  | i where "a = Task i" "i < length (tasks s)" "i \<notin> set (to_cancel s)"
      "pc (tasks s ! i) = Sleeping" "s' = retry i s"
  | i where "a = Task i" "i < length (tasks s)" "i \<in> set (to_cancel s)"
      "pc (tasks s ! i) = Pending" "s' = abandon i (delivered i s)"
  | i where "a = Task i" "i < length (tasks s)" "i \<in> set (to_cancel s)"
      "pc (tasks s ! i) = Drawing" "s' = finish i (Raised CancelledError) (delivered i s)"
  | i where "a = Task i" "i < length (tasks s)" "i \<in> set (to_cancel s)"
      "pc (tasks s ! i) = Evaluating" "s' = handler i (delivered i s)"
  | i where "a = Task i" "i < length (tasks s)" "i \<in> set (to_cancel s)"
      "pc (tasks s ! i) = Sleeping" "s' = finish i (Raised CancelledError) (delivered i s)"
  | i rest rs where "a = Main" "crashed s = None" "completed s = i # rest"
      "pc (tasks s ! i) = Returned (Some rs)"
      "s' = s\<lparr>completed := rest, drained := drained s @ [i], results := results s @ rs,
              progress := progress s @ [(Suc (length (drained s)), tot)]\<rparr>"
  | i rest where "a = Main" "crashed s = None" "completed s = i # rest"
      "pc (tasks s ! i) = Returned None"
      "s' = crash TypeError (s\<lparr>completed := rest, drained := drained s @ [i]\<rparr>)"
  | i rest x where "a = Main" "crashed s = None" "completed s = i # rest"
      "pc (tasks s ! i) = Raised x"
      "s' = crash x (s\<lparr>completed := rest, drained := drained s @ [i]\<rparr>)"
proof (cases a)
  case (Task i)
  with assms have i: "i < length (tasks s)"
    by (auto simp: step_def split: if_splits)
  show ?thesis
  proof (cases "i \<in> set (to_cancel s)")
    case False
    with assms Task i have t: "task_step e V i s = Some s'"
      by (simp add: step_def)
    note rules = that(1-8)[OF Task i False]
    from t show ?thesis
    proof (cases rule: task_stepE)
      case acquire
      then show ?thesis by (rule rules(1))
    next
      case draw
      then show ?thesis by (rule rules(2))
    next
      case draw_raises
      then show ?thesis by (rule rules(3))
    next
      case (eval_fails f)
      then show ?thesis by (rule rules(4))
    next
      case iterate_none
      then show ?thesis by (rule rules(5))
    next
      case (return_reported rs)
      then show ?thesis by (rule rules(6))
    next
      case (return_silent r)
      then show ?thesis by (rule rules(7))
    next
      case wake
      then show ?thesis by (rule rules(8))
    qed
  next
    case True
    with assms Task i have t: "cancel_step i s = Some s'"
      by (simp add: step_def)
    note rules = that(9-12)[OF Task i True]
    from t rules show ?thesis
      by (cases "pc (tasks s ! i)") (auto simp: cancel_step_def)
  qed
next
  case Main
  with assms have c: "crashed s = None" and m: "main_step tot s = Some s'"
    by (auto simp: step_def split: if_splits)
  note rules = that(13-15)[OF Main c]
  from m obtain i rest where q: "completed s = i # rest"
    by (cases "completed s") (simp_all add: main_step_def)
  show ?thesis
  proof (cases "pc (tasks s ! i)")
    case (Returned r)
    with m q rules(1,2) show ?thesis
      by (cases r) (auto simp: main_step_def Let_def)
  next
    case (Raised x)
    with m q rules(3) show ?thesis
      by (auto simp: main_step_def Let_def)
  qed (use m q in \<open>auto simp: main_step_def Let_def\<close>)
qed

lemma exec_invariant:
  assumes "exec e V tot sched s = Some s'" and "P s"
    and "\<And>a s s'. P s \<Longrightarrow> step e V tot a s = Some s' \<Longrightarrow> P s'"
  shows "P s'"
  using assms(1,2)
proof (induction sched arbitrary: s)
  case Nil
  then show ?case by simp
next
  case (Cons a sched)
  then show ?case by (auto split: option.splits intro: assms(3))
qed

lemma exec_append:
  "exec e V tot (xs @ ys) s =
     (case exec e V tot xs s of None \<Rightarrow> None | Some s' \<Rightarrow> exec e V tot ys s')"
  by (induction xs arbitrary: s) (auto split: option.splits)

section \<open>Invariants of the cooperative scheduler\<close>

lemma holders_update:
  assumes "tasks s' = (tasks s)[i := t]" "i < length (tasks s)"
  shows "holders s' + (if slot (tasks s ! i) then 1 else 0) = holders s + (if slot t then 1 else 0)"
  using length_filter_update[OF assms(2), of slot t] assms(1) by (simp add: holders_def)

lemma length_tasks_step:
  "step e V tot a s = Some s' \<Longrightarrow> length (tasks s') = length (tasks s)"
  by (erule stepE) simp_all

lemma data_point_step:
  "step e V tot a s = Some s' \<Longrightarrow> data_point (tasks s' ! j) = data_point (tasks s ! j)"
  by (erule stepE) (simp_all add: nth_list_update)

lemma slots_ok_update:
  assumes "slots_ok s" "tasks s' = (tasks s)[i := t]" "i < length (tasks s)"
    and "slot t = in_section t"
    and "semaphore s' + (if slot t then 1 else 0)
       = semaphore s + (if slot (tasks s ! i) then 1 else 0)"
  shows "slots_ok s'"
  using assms(1,4,5) holders_update[OF assms(2,3)] assms(2,3)
  by (auto simp: slots_ok_def nth_list_update split: if_splits)

lemma slots_ok_step:
  assumes "step e V tot a s = Some s'" "slots_ok s"
  shows "slots_ok s'"
  using assms(1)
proof (cases rule: stepE)
  case (acquire i)
  with assms(2) show ?thesis
    by (intro slots_ok_update[OF assms(2), where i = i
          and t = "(tasks s ! i)\<lparr>slot := True, pc := Drawing\<rparr>"])
       (auto simp: slots_ok_def in_section_def)
next
  case (draw i)
  with assms(2) show ?thesis
    by (intro slots_ok_update[OF assms(2), where i = i
          and t = "(tasks s ! i)\<lparr>pc := Evaluating\<rparr>"])
       (auto simp: slots_ok_def in_section_def)
next
  case (draw_raises i)
  with assms(2) show ?thesis
    by (intro slots_ok_update[OF assms(2), where i = i
          and t = "(tasks s ! i)\<lparr>pc := Raised BudgetError, slot := False\<rparr>"])
       (auto simp: slots_ok_def in_section_def)
next
  case (eval_fails i f)
  with assms(2) show ?thesis
    by (intro slots_ok_update[OF assms(2), where i = i
          and t = "(tasks s ! i)\<lparr>pc := Sleeping\<rparr>"])
       (auto simp: slots_ok_def in_section_def)
next
  case (iterate_none i)
  with assms(2) show ?thesis
    by (intro slots_ok_update[OF assms(2), where i = i
          and t = "(tasks s ! i)\<lparr>pc := Sleeping\<rparr>"])
       (auto simp: slots_ok_def in_section_def)
next
  case (return_reported i rs)
  with assms(2) show ?thesis
    by (intro slots_ok_update[OF assms(2), where i = i
          and t = "(tasks s ! i)\<lparr>pc := Returned (Some rs), slot := False\<rparr>"])
       (auto simp: slots_ok_def in_section_def)
next
  case (return_silent i r)
  with assms(2) show ?thesis
    by (intro slots_ok_update[OF assms(2), where i = i
          and t = "(tasks s ! i)\<lparr>pc := Returned r, slot := False\<rparr>"])
       (auto simp: slots_ok_def in_section_def)
next
  case (wake i)
  with assms(2) show ?thesis
    by (intro slots_ok_update[OF assms(2), where i = i
          and t = "(tasks s ! i)\<lparr>attempt := Suc (attempt (tasks s ! i)), pc := Drawing\<rparr>"])
       (auto simp: slots_ok_def in_section_def)
next
  case (cancel_pending i)
  with assms(2) show ?thesis
    by (intro slots_ok_update[OF assms(2), where i = i
          and t = "(tasks s ! i)\<lparr>pc := Raised CancelledError\<rparr>"])
       (auto simp: slots_ok_def in_section_def)
next
  case (cancel_drawing i)
  with assms(2) show ?thesis
    by (intro slots_ok_update[OF assms(2), where i = i
          and t = "(tasks s ! i)\<lparr>pc := Raised CancelledError, slot := False\<rparr>"])
       (auto simp: slots_ok_def in_section_def)
next
  case (cancel_evaluating i)
  with assms(2) show ?thesis
    by (intro slots_ok_update[OF assms(2), where i = i
          and t = "(tasks s ! i)\<lparr>pc := Sleeping\<rparr>"])
       (auto simp: slots_ok_def in_section_def)
next
  case (cancel_sleeping i)
  with assms(2) show ?thesis
    by (intro slots_ok_update[OF assms(2), where i = i
          and t = "(tasks s ! i)\<lparr>pc := Raised CancelledError, slot := False\<rparr>"])
       (auto simp: slots_ok_def in_section_def)
next
  case (drain i rest rs)
  with assms(2) show ?thesis by (simp add: slots_ok_def holders_def)
next
  case (drain_none i rest)
  with assms(2) show ?thesis by (simp add: slots_ok_def holders_def)
next
  case (drain_raised i rest x)
  with assms(2) show ?thesis by (simp add: slots_ok_def holders_def)
qed

lemma slots_ok_init: "slots_ok (init b)"
  by (simp add: slots_ok_def holders_def in_section_def filter_map comp_def)

lemma slots_ok_exec:
  "exec e V tot sched (init b) = Some s \<Longrightarrow> slots_ok s"
  by (erule exec_invariant[where P = slots_ok]) (auto intro: slots_ok_init slots_ok_step)

lemma finished_simps [simp]:
  "finished (t\<lparr>pc := Pending\<rparr>) = False"
  "finished (t\<lparr>pc := Drawing\<rparr>) = False"
  "finished (t\<lparr>pc := Evaluating\<rparr>) = False"
  "finished (t\<lparr>pc := Sleeping\<rparr>) = False"
  "finished (t\<lparr>pc := Returned r\<rparr>) = True"
  "finished (t\<lparr>pc := Raised x\<rparr>) = True"
  "finished (t\<lparr>slot := b\<rparr>) = finished t"
  "finished (t\<lparr>attempt := k\<rparr>) = finished t"
  by (simp_all add: finished_def)

lemma finished_pc:
  "pc t = Pending \<Longrightarrow> \<not> finished t"
  "pc t = Drawing \<Longrightarrow> \<not> finished t"
  "pc t = Evaluating \<Longrightarrow> \<not> finished t"
  "pc t = Sleeping \<Longrightarrow> \<not> finished t"
  "pc t = Returned r \<Longrightarrow> finished t"
  "pc t = Raised x \<Longrightarrow> finished t"
  by (simp_all add: finished_def)

lemma queues_ok_step:
  assumes "step e V tot a s = Some s'" "queues_ok s"
  shows "queues_ok s'"
  using assms(1)
proof (cases rule: stepE)
  case (drain i rest rs)
  with assms(2) show ?thesis by (auto simp: queues_ok_def)
next
  case (drain_none i rest)
  with assms(2) show ?thesis by (auto simp: queues_ok_def)
next
  case (drain_raised i rest x)
  with assms(2) show ?thesis by (auto simp: queues_ok_def)
qed (use assms(2) in \<open>auto simp: queues_ok_def nth_list_update dest: finished_pc\<close>)

lemma queues_ok_init: "queues_ok (init b)"
  by (simp add: queues_ok_def finished_def)

lemma contribution_simps [simp]:
  "contribution (t\<lparr>pc := Pending\<rparr>) = []"
  "contribution (t\<lparr>pc := Drawing\<rparr>) = []"
  "contribution (t\<lparr>pc := Evaluating\<rparr>) = []"
  "contribution (t\<lparr>pc := Sleeping\<rparr>) = []"
  "contribution (t\<lparr>pc := Returned None\<rparr>) = []"
  "contribution (t\<lparr>pc := Returned (Some rs)\<rparr>) = rs"
  "contribution (t\<lparr>pc := Raised x\<rparr>) = []"
  "contribution (t\<lparr>slot := b\<rparr>) = contribution t"
  "contribution (t\<lparr>attempt := k\<rparr>) = contribution t"
  by (simp_all add: contribution_def)

lemma map_nth_update_other:
  "i \<notin> set ds \<Longrightarrow> map (\<lambda>j. f (xs[i := y] ! j)) ds = map (\<lambda>j. f (xs ! j)) ds"
  by (induction ds) auto

lemma not_finished_not_drained:
  "queues_ok s \<Longrightarrow> \<not> finished (tasks s ! i) \<Longrightarrow> i \<notin> set (drained s)"
  by (auto simp: queues_ok_def)

text \<open>What a step of a coroutine leaves as it is.\<close>

lemma task_step_frame:
  assumes "step e V tot (Task i) s = Some s'"
  shows "i < length (tasks s) \<and> \<not> finished (tasks s ! i)
    \<and> (\<exists>t. tasks s' = (tasks s)[i := t])
    \<and> results s' = results s \<and> drained s' = drained s \<and> crashed s' = crashed s"
  using assms by (cases rule: stepE) (auto dest: finished_pc)

lemma results_ok_step:
  assumes "step e V tot a s = Some s'" "queues_ok s" "results_ok s"
  shows "results_ok s'"
proof (cases a)
  case (Task i)
  from task_step_frame[OF assms(1)[unfolded Task]] obtain t where
    "\<not> finished (tasks s ! i)" "tasks s' = (tasks s)[i := t]"
    "results s' = results s" "drained s' = drained s"
    by blast
  with assms(2,3) not_finished_not_drained[of s i] show ?thesis
    by (simp add: results_ok_def map_nth_update_other)
next
  case Main
  from assms(1) show ?thesis
  proof (cases rule: stepE)
    case (drain i rest rs)
    with assms(3) show ?thesis by (simp add: results_ok_def contribution_def)
  next
    case (drain_none i rest)
    with assms(3) show ?thesis by (simp add: results_ok_def contribution_def)
  next
    case (drain_raised i rest x)
    with assms(3) show ?thesis by (simp add: results_ok_def contribution_def)
  qed (use Main in simp_all)
qed

lemma results_ok_init: "results_ok (init b)"
  by (simp add: results_ok_def)

lemma returns_ok_step:
  assumes "step e V tot a s = Some s'" "returns_ok e V s"
  shows "returns_ok e V s'"
  using assms(1)
  by (cases rule: stepE) (use assms(2) in \<open>auto simp: returns_ok_def nth_list_update\<close>)

lemma returns_ok_init: "returns_ok e V (init b)"
  by (simp add: returns_ok_def)

lemma cancel_ok_step:
  assumes "step e V tot a s = Some s'" "cancel_ok s"
  shows "cancel_ok s'"
  using assms(1)
  by (cases rule: stepE) (use assms(2) in \<open>auto simp: cancel_ok_def\<close>)

lemma cancel_ok_init: "cancel_ok (init b)"
  by (simp add: cancel_ok_def)

lemma retries_ok_step:
  assumes "step e V tot a s = Some s'" "retries_ok e V s" "cancel_ok s"
  shows "retries_ok e V s'"
  using assms(1)
proof (cases rule: stepE)
  case (eval_fails i f)
  with assms(2) show ?thesis
    by (auto simp: retries_ok_def failed_attempts_def backoffs_of_def nth_list_update
        failed_def less_Suc_eq)
next
  case (iterate_none i)
  with assms(2) show ?thesis
    by (auto simp: retries_ok_def failed_attempts_def backoffs_of_def nth_list_update
        failed_def less_Suc_eq)
next
  case (wake i)
  with assms(2) show ?thesis
    by (auto simp: retries_ok_def failed_attempts_def backoffs_of_def nth_list_update
        replicate_append_same)
next
  case (cancel_pending i)
  with assms(3) have "crashed s \<noteq> None" by (auto simp: cancel_ok_def)
  with cancel_pending assms(2) show ?thesis
    by (auto simp: retries_ok_def failed_attempts_def backoffs_of_def nth_list_update)
next
  case (cancel_drawing i)
  with assms(3) have "crashed s \<noteq> None" by (auto simp: cancel_ok_def)
  with cancel_drawing assms(2) show ?thesis
    by (auto simp: retries_ok_def failed_attempts_def backoffs_of_def nth_list_update)
next
  case (cancel_evaluating i)
  with assms(3) have "crashed s \<noteq> None" by (auto simp: cancel_ok_def)
  with cancel_evaluating assms(2) show ?thesis
    by (auto simp: retries_ok_def failed_attempts_def backoffs_of_def nth_list_update)
next
  case (cancel_sleeping i)
  with assms(3) have "crashed s \<noteq> None" by (auto simp: cancel_ok_def)
  with cancel_sleeping assms(2) show ?thesis
    by (auto simp: retries_ok_def failed_attempts_def backoffs_of_def nth_list_update)
qed (use assms(2) in \<open>auto simp: retries_ok_def failed_attempts_def backoffs_of_def
       nth_list_update\<close>)

lemma retries_ok_init: "retries_ok e V (init b)"
  by (simp add: retries_ok_def failed_attempts_def backoffs_of_def)

lemma consistent_step:
  assumes st: "step e V tot a s = Some s'" and c: "consistent e V s"
  shows "consistent e V s'"
  using slots_ok_step[OF st] queues_ok_step[OF st] results_ok_step[OF st]
    returns_ok_step[OF st] retries_ok_step[OF st] cancel_ok_step[OF st] c
  by (simp add: consistent_def)

lemma consistent_init: "consistent e V (init b)"
  by (simp add: consistent_def slots_ok_init queues_ok_init results_ok_init returns_ok_init
      retries_ok_init cancel_ok_init)

lemma consistent_exec:
  "exec e V tot sched (init b) = Some s \<Longrightarrow> consistent e V s"
  by (erule exec_invariant[where P = "consistent e V"])
     (auto intro: consistent_init consistent_step)

section \<open>What the cooperative scheduler returns\<close>

lemma run_single_input_keys:
  "run_single_input e k d V = Inr rs \<Longrightarrow> map result_key rs = map (Pair d) V"
  by (induction V arbitrary: rs)
     (auto simp: result_key_def split: sum.splits prod.splits)

lemma aparallel_task_Some:
  "aparallel_task e k d V = Inr (Some rs) \<Longrightarrow> V \<noteq> [] \<and> map result_key rs = map (Pair d) V"
  by (cases V)
     (auto simp: aparallel_task_def arun_single_input_def simp del: run_single_input.simps
      split: sum.splits dest: run_single_input_keys)


lemma mset_concat_map_cong:
  "mset xs = mset ys \<Longrightarrow> mset (concat (map f xs)) = mset (concat (map f ys))"
proof -
  assume eq: "mset xs = mset ys"
  have "mset (concat (map f zs)) = sum_mset (image_mset (\<lambda>x. mset (f x)) (mset zs))" for zs
    by (induction zs) simp_all
  with eq show ?thesis by simp
qed

lemma all_drained:
  assumes "queues_ok s" "length (drained s) = length (tasks s)"
  shows "mset (drained s) = mset [0..<length (tasks s)]"
proof -
  from assms(1) have d: "distinct (drained s)" and sub: "set (drained s) \<subseteq> {..<length (tasks s)}"
    by (auto simp: queues_ok_def)
  from d assms(2) have "card (set (drained s)) = card {..<length (tasks s)}"
    by (simp add: distinct_card)
  with sub have "set (drained s) = {..<length (tasks s)}"
    by (simp add: card_subset_eq)
  then have "set (drained s) = set [0..<length (tasks s)]"
    by (simp add: atLeast0LessThan)
  with d show ?thesis
    using set_eq_iff_mset_eq_distinct[of "drained s" "[0..<length (tasks s)]"] by simp
qed

lemma outcome_Inr:
  "outcome s = Some (Inr rs) \<longleftrightarrow>
     crashed s = None \<and> length (drained s) = length (tasks s) \<and> rs = results s"
  by (auto simp: outcome_def split: option.splits)

lemma returned_keys:
  assumes "queues_ok s" "results_ok s" "returns_ok e V s"
    and "outcome s = Some (Inr rs)"
  shows "mset (map result_key rs) = mset (List.product (map data_point (tasks s)) V)"
proof -
  let ?n = "length (tasks s)"
  let ?D = "map data_point (tasks s)"
  from assms(4) have c: "crashed s = None" and len: "length (drained s) = ?n"
    and rs: "rs = results s"
    by (simp_all add: outcome_Inr)
  have key: "map result_key (contribution (tasks s ! i)) = map (Pair (?D ! i)) V"
    if "i \<in> set (drained s)" for i
  proof -
    from that assms(1) have i: "i < ?n"
      unfolding queues_ok_def by (metis Un_iff set_append)
    from that assms(1) c obtain r where r: "pc (tasks s ! i) = Returned (Some r)"
      unfolding queues_ok_def by blast
    from assms(3) i r have "aparallel_task e (attempt (tasks s ! i)) (data_point (tasks s ! i)) V = Inr (Some r)"
      unfolding returns_ok_def by blast
    from aparallel_task_Some[OF this] i r show ?thesis
      by (simp add: contribution_def)
  qed
  have "map result_key rs = concat (map (\<lambda>i. map result_key (contribution (tasks s ! i))) (drained s))"
    using assms(2) rs by (simp add: results_ok_def map_concat comp_def)
  also have "\<dots> = concat (map (\<lambda>i. map (Pair (?D ! i)) V) (drained s))"
    using key by (simp cong: map_cong)
  finally have "mset (map result_key rs)
      = mset (concat (map (\<lambda>i. map (Pair (?D ! i)) V) (drained s)))"
    by simp
  also have "\<dots> = mset (concat (map (\<lambda>i. map (Pair (?D ! i)) V) [0..<?n]))"
    by (rule mset_concat_map_cong) (rule all_drained[OF assms(1) len])
  also have "concat (map (\<lambda>i. map (Pair (?D ! i)) V) [0..<?n])
      = concat (map (\<lambda>d. map (Pair d) V) (map ((!) ?D) [0..<length ?D]))"
    by (simp add: comp_def)
  also have "\<dots> = List.product ?D V"
    by (simp only: map_nth product_concat_map)
  finally show ?thesis .
qed

lemma data_points_exec:
  "exec e V tot sched s = Some s' \<Longrightarrow>
     map data_point (tasks s') = map data_point (tasks s)"
proof (induction sched arbitrary: s)
  case Nil
  then show ?case by simp
next
  case (Cons a sched)
  then obtain s1 where 1: "step e V tot a s = Some s1" and 2: "exec e V tot sched s1 = Some s'"
    by (auto split: option.splits)
  have "map data_point (tasks s1) = map data_point (tasks s)"
    by (rule nth_equalityI) (simp_all add: length_tasks_step[OF 1] data_point_step[OF 1])
  with Cons.IH[OF 2] show ?case by simp
qed

lemma data_points_init: "map data_point (tasks (init b)) = concat b"
  by (simp add: comp_def)

lemma aprocess_dataset_keys:
  assumes "aprocess_dataset e D V sched = Some (Inr rs)"
  shows "mset (map result_key rs) = mset (List.product (concat D) V)"
    and "length rs = length (concat D) * length V"
proof -
  from assms obtain s where run: "exec e V (total_tasks D V) sched (init D) = Some s"
    and out: "outcome s = Some (Inr rs)"
    by (auto simp: aprocess_dataset_def aprocess_body_def split: option.splits)
  from consistent_exec[OF run] have "queues_ok s" "results_ok s" "returns_ok e V s"
    by (simp_all add: consistent_def)
  have "map data_point (tasks s) = concat D"
    using data_points_exec[OF run] data_points_init[of D] by (rule trans)
  with returned_keys[OF \<open>queues_ok s\<close> \<open>results_ok s\<close> \<open>returns_ok e V s\<close> out]
  show k: "mset (map result_key rs) = mset (List.product (concat D) V)"
    by (simp only:)
  then have "size (mset (map result_key rs)) = size (mset (List.product (concat D) V))"
    by simp
  then show "length rs = length (concat D) * length V" by simp
qed

section \<open>Facts about the thread-pool scheduler\<close>

lemma parallel_task_keys:
  "parallel_task e d V = Inr rs \<Longrightarrow> map result_key rs = map (Pair d) V"
  by (simp add: parallel_task_def run_single_input_keys)

lemma extend_all_keys:
  "extend_all e V ds acc = Inr rs \<Longrightarrow>
     map result_key rs = map result_key acc @ List.product ds V"
proof (induction ds arbitrary: acc)
  case Nil
  then show ?case by simp
next
  case (Cons d ds)
  then obtain res where r: "parallel_task e d V = Inr res"
    and rest: "extend_all e V ds (acc @ res) = Inr rs"
    by (auto split: sum.splits)
  from Cons.IH[OF rest] parallel_task_keys[OF r] show ?case by simp
qed

lemma process_batches_keys:
  "process_batches e V bs acc = Inr rs \<Longrightarrow>
     map result_key rs = map result_key acc @ List.product (concat bs) V"
proof (induction bs arbitrary: acc)
  case Nil
  then show ?case by simp
next
  case (Cons b bs)
  then obtain acc' where b: "extend_all e V b acc = Inr acc'"
    and rest: "process_batches e V bs acc' = Inr rs"
    by (auto split: sum.splits)
  have "List.product (b @ concat bs) V = List.product b V @ List.product (concat bs) V"
    by (simp add: product_concat_map)
  with Cons.IH[OF rest] extend_all_keys[OF b] show ?case by simp
qed

text \<open>The pool never runs more jobs than it has threads.\<close>

lemma pool_step_workers:
  assumes "pool_step w e V i p = Some p'" "length (filter on_worker (jobs p)) \<le> w"
  shows "length (filter on_worker (jobs p')) \<le> w"
proof -
  from assms(1) have i: "i < length (jobs p)"
    by (auto simp: pool_step_def split: if_splits)
  note upd = length_filter_update[OF i, of on_worker]
  show ?thesis
  proof (cases "job_pc (jobs p ! i)")
    case Queued
    with assms i upd[of "(jobs p ! i)\<lparr>job_pc := Limiting\<rparr>"] show ?thesis
      by (auto simp: pool_step_def Let_def on_worker_def split: if_splits)
  next
    case Limiting
    with assms i upd[of "(jobs p ! i)\<lparr>job_pc := Working\<rparr>"] show ?thesis
      by (auto simp: pool_step_def Let_def on_worker_def)
  next
    case Working
    with assms i
      upd[of "(jobs p ! i)\<lparr>job_pc := Finished (run_single_input e 0 (job_datum (jobs p ! i)) V)\<rparr>"]
    show ?thesis
      by (auto simp: pool_step_def Let_def on_worker_def)
  next
    case (Finished r)
    with assms i show ?thesis by (simp add: pool_step_def)
  qed
qed

lemma pool_exec_workers:
  "pool_exec w e V js p = Some p' \<Longrightarrow> length (filter on_worker (jobs p)) \<le> w
     \<Longrightarrow> length (filter on_worker (jobs p')) \<le> w"
proof (induction js arbitrary: p)
  case Nil
  then show ?case by simp
next
  case (Cons j js)
  then show ?case by (auto split: option.splits dest: pool_step_workers)
qed

lemma pool_init_workers: "filter on_worker (jobs (pool_init data)) = []"
  by (simp add: pool_init_def on_worker_def filter_empty_conv)

lemma pool_draw_on_worker:
  assumes "pool_step w e V i p = Some p'" "draws p' \<noteq> draws p"
  shows "on_worker (jobs p ! i) \<and> on_worker (jobs p' ! i) \<and> draws p' = draws p @ [i]"
  using assms
  by (auto simp: pool_step_def Let_def on_worker_def split: if_splits worker_pc.splits)

section \<open>Completeness\<close>

text \<open>
  Claim C1: for every data set and every set of variation combinations, if no task fails
  fatally, the list a run returns has exactly one result for each pair of a datum and a
  variation, whatever the order in which the tasks complete.

  The code does not do so in the cooperative scheduler when there is no combination.
  \<^verbatim>\<open>aparallel_task\<close> evaluates only inside \<^verbatim>\<open>for _ in all_combinations:\<close> and falls off the
  end of the loop, so with one data point the only task returns \<^verbatim>\<open>None\<close> without any
  failure and without entering the handler, \<^verbatim>\<open>results.extend(None)\<close> raises a
  \<^verbatim>\<open>TypeError\<close>, and neither \<^verbatim>\<open>_aprocess_dataset\<close> nor \<^verbatim>\<open>asyncio.run\<close> returns a list.  The list
  the claim asks for has no entry; the sibling \<^verbatim>\<open>_process_dataset\<close>, whose \<^verbatim>\<open>parallel_task\<close>
  calls \<^verbatim>\<open>run_single_input\<close> without such a loop, returns it.
\<close>

theorem no_combinations_type_error:
  "aprocess_dataset steady [[0]] [] [Task 0, Task 0, Task 0, Main] = Some (Inl TypeError)
   \<and> asyncio_run steady [[0]] [] [Task 0, Task 0, Task 0, Main] = Some (Inl TypeError)
   \<and> map_option (\<lambda>s. pc (tasks s ! 0)) (exec steady [] 0 [Task 0, Task 0, Task 0] (init [[0]]))
       = Some (Returned None)
   \<and> map_option printed (exec steady [] 0 [Task 0, Task 0, Task 0, Main] (init [[0]])) = Some []
   \<and> process_dataset steady [[0]] [] = Inr []
   \<and> length (concat [[0 :: datum]]) * length ([] :: variation list) = 0"
  by code_simp

section \<open>Classification of failures\<close>

text \<open>
  Claim C2: only a throughput-limit failure of the evaluation engine is retried; every
  other kind of failure makes the task fatal, is recorded and surfaced at the end of the
  run, is kept out of the result collection, and never causes the task to be attempted
  again or the whole run to crash.

  The code retries after every failure: the handler is a bare \<^verbatim>\<open>except:\<close>, although its
  message reads ``Rate limit exceeded''.  With an engine whose first attempt ends in an
  \<^verbatim>\<open>EvaluationFailure\<close>, the task prints that message, sleeps 100 seconds, is attempted
  again, and its results are in the list the run returns; no failure is recorded.
\<close>

theorem every_failure_is_retried:
  "engine broken_once 0 1 5 = Inl EvaluationFailure
   \<and> aprocess_dataset broken_once [[1]] [5]
        [Task 0, Task 0, Task 0, Task 0, Task 0, Task 0, Main]
       = Some (Inr [\<lparr>input_data = 1, combination = 5, raw_output = 6, token_usage = 7\<rparr>])
   \<and> map_option printed
        (exec broken_once [5] 1 [Task 0, Task 0, Task 0, Task 0, Task 0, Task 0, Main] (init [[1]]))
       = Some [0]
   \<and> map_option backoffs
        (exec broken_once [5] 1 [Task 0, Task 0, Task 0, Task 0, Task 0, Task 0, Main] (init [[1]]))
       = Some [(0, 100)]
   \<and> map_option crashed
        (exec broken_once [5] 1 [Task 0, Task 0, Task 0, Task 0, Task 0, Task 0, Main] (init [[1]]))
       = Some None"
  by code_simp

section \<open>Retry\<close>

lemma failure_enters_handler:
  assumes "i < length (tasks s)" "pc (tasks s ! i) = Evaluating"
    and "attempt_fails e V s i \<or> i \<in> set (to_cancel s)"
  shows "\<exists>s'. step e V tot (Task i) s = Some s'
    \<and> pc (tasks s' ! i) = Sleeping
    \<and> slot (tasks s' ! i) = slot (tasks s ! i)
    \<and> data_point (tasks s' ! i) = data_point (tasks s ! i)
    \<and> attempt (tasks s' ! i) = attempt (tasks s ! i)
    \<and> printed s' = printed s @ [i]
    \<and> results s' = results s \<and> budget_log s' = budget_log s \<and> completed s' = completed s"
proof (cases "i \<in> set (to_cancel s)")
  case True
  with assms(1,2) have "step e V tot (Task i) s = Some (handler i (delivered i s))"
    by (simp add: step_def cancel_step_def)
  with assms(1) show ?thesis by simp
next
  case False
  with assms(3) have "attempt_fails e V s i" by simp
  with assms(1,2) False have "step e V tot (Task i) s = Some (handler i s)"
    by (auto simp: step_def task_step_def attempt_fails_def Let_def
        split: sum.splits option.splits)
  with assms(1) show ?thesis by simp
qed

lemma sleeping_retries:
  "i < length (tasks s) \<Longrightarrow> pc (tasks s ! i) = Sleeping \<Longrightarrow> i \<notin> set (to_cancel s)
     \<Longrightarrow> step e V tot (Task i) s = Some (retry i s)"
  by (simp add: step_def task_step_def)

lemma retry_task:
  "i < length (tasks s) \<Longrightarrow>
     pc (tasks (retry i s) ! i) = Drawing
     \<and> data_point (tasks (retry i s) ! i) = data_point (tasks s ! i)
     \<and> attempt (tasks (retry i s) ! i) = Suc (attempt (tasks s ! i))
     \<and> backoffs (retry i s) = backoffs s @ [(i, 100)]"
  by (simp add: backoff_seconds_def)

lemma drawing_evaluates:
  assumes "i < length (tasks s)" "pc (tasks s ! i) = Drawing" "i \<notin> set (to_cancel s)"
    and "\<not> wait_raises e (data_point (tasks s ! i)) (attempt (tasks s ! i))"
  shows "\<exists>s'. step e V tot (Task i) s = Some s'
    \<and> pc (tasks s' ! i) = Evaluating
    \<and> data_point (tasks s' ! i) = data_point (tasks s ! i)
    \<and> attempt (tasks s' ! i) = attempt (tasks s ! i)"
proof -
  from assms have "step e V tot (Task i) s
      = Some (goto i Evaluating (s\<lparr>budget_log := budget_log s @ [Wait i]\<rparr>))"
    by (simp add: step_def task_step_def)
  with assms(1) show ?thesis by simp
qed

lemma success_returns:
  assumes "i < length (tasks s)" "pc (tasks s ! i) = Evaluating" "i \<notin> set (to_cancel s)"
    and "aparallel_task e (attempt (tasks s ! i)) (data_point (tasks s ! i)) V = Inr (Some rs)"
  shows "\<exists>s'. step e V tot (Task i) s = Some s'
    \<and> pc (tasks s' ! i) = Returned (Some rs)
    \<and> completed s' = completed s @ [i]"
proof (cases "results s = []")
  case True
  with assms have "step e V tot (Task i) s = Some (finish i (Returned (Some rs)) s)"
    by (simp add: step_def task_step_def)
  with assms(1) show ?thesis by simp
next
  case False
  with assms have "step e V tot (Task i) s
      = Some (finish i (Returned (Some rs)) (report_tokens i rs s))"
    by (simp add: step_def task_step_def)
  with assms(1) show ?thesis by simp
qed

lemma contribution_all_or_none:
  assumes "returns_ok e V s" "i < length (tasks s)"
  shows "contribution (tasks s ! i) = []
    \<or> map result_key (contribution (tasks s ! i)) = map (Pair (data_point (tasks s ! i))) V"
proof (cases "pc (tasks s ! i)")
  case (Returned r)
  show ?thesis
  proof (cases r)
    case None
    with Returned show ?thesis by (simp add: contribution_def)
  next
    case (Some rs)
    with Returned assms
    have "aparallel_task e (attempt (tasks s ! i)) (data_point (tasks s ! i)) V = Inr (Some rs)"
      unfolding returns_ok_def by blast
    from aparallel_task_Some[OF this] Returned Some show ?thesis
      by (simp add: contribution_def)
  qed
qed (simp_all add: contribution_def)

text \<open>
  Claim C3: when an attempt of a task fails, the retry policy waits a fixed backoff
  interval and then re-runs the whole task, the same datum against the full variation
  set; so a retried task contributes all of its per-variation results or none to the
  final collection, and a task that succeeds after \<open>k\<close> failed attempts appears exactly
  once, after at least \<open>k\<close> backoff waits of the fixed duration.

  In every state that a run reaches, under any schedule and with any engine:
  \<^item> \<^verbatim>\<open>results\<close> is made of the contributions of the drained tasks, each drained once;
  \<^item> the contribution of a task is empty or has one result per variation, for its datum;
  \<^item> the sleeps of task \<open>i\<close> are as many as its attempt number, 100 seconds each, and as
    long as no exception has left the draining loop (so that nothing has been cancelled)
    every attempt counted as failed did fail;
  \<^item> a task whose attempt fails, whatever the failure, or is cancelled, enters the
    handler: it prints, keeps its slot, its datum and its attempt number, adds nothing to
    \<^verbatim>\<open>results\<close>, reports nothing to the rate limiter, and sleeps;
  \<^item> all a task in the handler can do, unless it is cancelled, is end its sleep of 100
    seconds and go back to the rate limiter with the same datum and the next attempt
    number;
  \<^item> from the rate limiter the task goes on to evaluate the same datum in the same
    attempt, and an attempt in which \<^verbatim>\<open>aparallel_task\<close> gives a list ends the coroutine
    with that list;
  \<^item> the value a task returned is what \<^verbatim>\<open>aparallel_task\<close> gave for its datum and the whole
    list of combinations in its last attempt, after as many sleeps as attempts before it.
\<close>

theorem retry_atomicity:
  "exec e V tot sched (init b) = Some s \<longrightarrow>
     results s = concat (map (\<lambda>i. contribution (tasks s ! i)) (drained s))
     \<and> distinct (drained s)
     \<and> (crashed s = None \<longrightarrow> to_cancel s = [])
     \<and> (\<forall>i<length (tasks s).
          (contribution (tasks s ! i) = []
           \<or> map result_key (contribution (tasks s ! i)) = map (Pair (data_point (tasks s ! i))) V)
          \<and> backoffs_of i s = replicate (attempt (tasks s ! i)) (i, 100)
          \<and> (crashed s = None \<longrightarrow>
                (\<forall>k<failed_attempts (tasks s ! i). failed e V (data_point (tasks s ! i)) k))
          \<and> (pc (tasks s ! i) = Evaluating
                \<and> (attempt_fails e V s i \<or> i \<in> set (to_cancel s)) \<longrightarrow>
               (\<exists>s'. step e V tot (Task i) s = Some s'
                  \<and> pc (tasks s' ! i) = Sleeping
                  \<and> slot (tasks s' ! i)
                  \<and> data_point (tasks s' ! i) = data_point (tasks s ! i)
                  \<and> attempt (tasks s' ! i) = attempt (tasks s ! i)
                  \<and> printed s' = printed s @ [i]
                  \<and> results s' = results s \<and> budget_log s' = budget_log s
                  \<and> completed s' = completed s))
          \<and> (pc (tasks s ! i) = Sleeping \<and> i \<notin> set (to_cancel s) \<longrightarrow>
               step e V tot (Task i) s = Some (retry i s)
               \<and> pc (tasks (retry i s) ! i) = Drawing
               \<and> data_point (tasks (retry i s) ! i) = data_point (tasks s ! i)
               \<and> attempt (tasks (retry i s) ! i) = Suc (attempt (tasks s ! i))
               \<and> backoffs (retry i s) = backoffs s @ [(i, 100)])
          \<and> (pc (tasks s ! i) = Drawing \<and> i \<notin> set (to_cancel s)
                \<and> \<not> wait_raises e (data_point (tasks s ! i)) (attempt (tasks s ! i)) \<longrightarrow>
               (\<exists>s'. step e V tot (Task i) s = Some s'
                  \<and> pc (tasks s' ! i) = Evaluating
                  \<and> data_point (tasks s' ! i) = data_point (tasks s ! i)
                  \<and> attempt (tasks s' ! i) = attempt (tasks s ! i)))
          \<and> (\<forall>rs. pc (tasks s ! i) = Evaluating \<and> i \<notin> set (to_cancel s)
                \<and> aparallel_task e (attempt (tasks s ! i)) (data_point (tasks s ! i)) V
                    = Inr (Some rs) \<longrightarrow>
               (\<exists>s'. step e V tot (Task i) s = Some s'
                  \<and> pc (tasks s' ! i) = Returned (Some rs)
                  \<and> completed s' = completed s @ [i]))
          \<and> (\<forall>r. pc (tasks s ! i) = Returned r \<longrightarrow>
               failed_attempts (tasks s ! i) = attempt (tasks s ! i)
               \<and> aparallel_task e (attempt (tasks s ! i)) (data_point (tasks s ! i)) V = Inr r))"
proof (intro impI)
  assume run: "exec e V tot sched (init b) = Some s"
  from consistent_exec[OF run] have q: "queues_ok s" and rs: "results_ok s"
    and rt: "returns_ok e V s" and ry: "retries_ok e V s" and sl: "slots_ok s"
    and ca: "cancel_ok s"
    by (simp_all add: consistent_def)
  have 1: "results s = concat (map (\<lambda>i. contribution (tasks s ! i)) (drained s))"
    using rs by (simp add: results_ok_def)
  have 2: "distinct (drained s)" using q by (simp add: queues_ok_def)
  have 3: "crashed s = None \<longrightarrow> to_cancel s = []" using ca by (simp add: cancel_ok_def)
  have 4: "(contribution (tasks s ! i) = []
           \<or> map result_key (contribution (tasks s ! i)) = map (Pair (data_point (tasks s ! i))) V)
          \<and> backoffs_of i s = replicate (attempt (tasks s ! i)) (i, 100)
          \<and> (crashed s = None \<longrightarrow>
                (\<forall>k<failed_attempts (tasks s ! i). failed e V (data_point (tasks s ! i)) k))
          \<and> (pc (tasks s ! i) = Evaluating
                \<and> (attempt_fails e V s i \<or> i \<in> set (to_cancel s)) \<longrightarrow>
               (\<exists>s'. step e V tot (Task i) s = Some s'
                  \<and> pc (tasks s' ! i) = Sleeping
                  \<and> slot (tasks s' ! i)
                  \<and> data_point (tasks s' ! i) = data_point (tasks s ! i)
                  \<and> attempt (tasks s' ! i) = attempt (tasks s ! i)
                  \<and> printed s' = printed s @ [i]
                  \<and> results s' = results s \<and> budget_log s' = budget_log s
                  \<and> completed s' = completed s))
          \<and> (pc (tasks s ! i) = Sleeping \<and> i \<notin> set (to_cancel s) \<longrightarrow>
               step e V tot (Task i) s = Some (retry i s)
               \<and> pc (tasks (retry i s) ! i) = Drawing
               \<and> data_point (tasks (retry i s) ! i) = data_point (tasks s ! i)
               \<and> attempt (tasks (retry i s) ! i) = Suc (attempt (tasks s ! i))
               \<and> backoffs (retry i s) = backoffs s @ [(i, 100)])
          \<and> (pc (tasks s ! i) = Drawing \<and> i \<notin> set (to_cancel s)
                \<and> \<not> wait_raises e (data_point (tasks s ! i)) (attempt (tasks s ! i)) \<longrightarrow>
               (\<exists>s'. step e V tot (Task i) s = Some s'
                  \<and> pc (tasks s' ! i) = Evaluating
                  \<and> data_point (tasks s' ! i) = data_point (tasks s ! i)
                  \<and> attempt (tasks s' ! i) = attempt (tasks s ! i)))
          \<and> (\<forall>rs. pc (tasks s ! i) = Evaluating \<and> i \<notin> set (to_cancel s)
                \<and> aparallel_task e (attempt (tasks s ! i)) (data_point (tasks s ! i)) V
                    = Inr (Some rs) \<longrightarrow>
               (\<exists>s'. step e V tot (Task i) s = Some s'
                  \<and> pc (tasks s' ! i) = Returned (Some rs)
                  \<and> completed s' = completed s @ [i]))
          \<and> (\<forall>r. pc (tasks s ! i) = Returned r \<longrightarrow>
               failed_attempts (tasks s ! i) = attempt (tasks s ! i)
               \<and> aparallel_task e (attempt (tasks s ! i)) (data_point (tasks s ! i)) V = Inr r)"
    if i: "i < length (tasks s)" for i
  proof (intro conjI)
    show "contribution (tasks s ! i) = []
           \<or> map result_key (contribution (tasks s ! i)) = map (Pair (data_point (tasks s ! i))) V"
      by (rule contribution_all_or_none[OF rt i])
    from ry i show "backoffs_of i s = replicate (attempt (tasks s ! i)) (i, 100)"
      by (simp add: retries_ok_def backoff_seconds_def)
    from ry i show "crashed s = None \<longrightarrow>
                (\<forall>k<failed_attempts (tasks s ! i). failed e V (data_point (tasks s ! i)) k)"
      by (simp add: retries_ok_def)
    show "pc (tasks s ! i) = Evaluating
                \<and> (attempt_fails e V s i \<or> i \<in> set (to_cancel s)) \<longrightarrow>
               (\<exists>s'. step e V tot (Task i) s = Some s'
                  \<and> pc (tasks s' ! i) = Sleeping
                  \<and> slot (tasks s' ! i)
                  \<and> data_point (tasks s' ! i) = data_point (tasks s ! i)
                  \<and> attempt (tasks s' ! i) = attempt (tasks s ! i)
                  \<and> printed s' = printed s @ [i]
                  \<and> results s' = results s \<and> budget_log s' = budget_log s
                  \<and> completed s' = completed s)"
    proof
      assume a: "pc (tasks s ! i) = Evaluating
                \<and> (attempt_fails e V s i \<or> i \<in> set (to_cancel s))"
      with sl i have "slot (tasks s ! i)" by (simp add: slots_ok_def in_section_def)
      with failure_enters_handler[OF i, of e V tot] a show "\<exists>s'. step e V tot (Task i) s = Some s'
                  \<and> pc (tasks s' ! i) = Sleeping
                  \<and> slot (tasks s' ! i)
                  \<and> data_point (tasks s' ! i) = data_point (tasks s ! i)
                  \<and> attempt (tasks s' ! i) = attempt (tasks s ! i)
                  \<and> printed s' = printed s @ [i]
                  \<and> results s' = results s \<and> budget_log s' = budget_log s
                  \<and> completed s' = completed s"
        by metis
    qed
    show "pc (tasks s ! i) = Sleeping \<and> i \<notin> set (to_cancel s) \<longrightarrow>
               step e V tot (Task i) s = Some (retry i s)
               \<and> pc (tasks (retry i s) ! i) = Drawing
               \<and> data_point (tasks (retry i s) ! i) = data_point (tasks s ! i)
               \<and> attempt (tasks (retry i s) ! i) = Suc (attempt (tasks s ! i))
               \<and> backoffs (retry i s) = backoffs s @ [(i, 100)]"
      using sleeping_retries[OF i] retry_task[OF i] by blast
    show "pc (tasks s ! i) = Drawing \<and> i \<notin> set (to_cancel s)
                \<and> \<not> wait_raises e (data_point (tasks s ! i)) (attempt (tasks s ! i)) \<longrightarrow>
               (\<exists>s'. step e V tot (Task i) s = Some s'
                  \<and> pc (tasks s' ! i) = Evaluating
                  \<and> data_point (tasks s' ! i) = data_point (tasks s ! i)
                  \<and> attempt (tasks s' ! i) = attempt (tasks s ! i))"
      using drawing_evaluates[OF i] by blast
    show "\<forall>rs. pc (tasks s ! i) = Evaluating \<and> i \<notin> set (to_cancel s)
                \<and> aparallel_task e (attempt (tasks s ! i)) (data_point (tasks s ! i)) V
                    = Inr (Some rs) \<longrightarrow>
               (\<exists>s'. step e V tot (Task i) s = Some s'
                  \<and> pc (tasks s' ! i) = Returned (Some rs)
                  \<and> completed s' = completed s @ [i])"
      using success_returns[OF i] by blast
    from rt i show "\<forall>r. pc (tasks s ! i) = Returned r \<longrightarrow>
               failed_attempts (tasks s ! i) = attempt (tasks s ! i)
               \<and> aparallel_task e (attempt (tasks s ! i)) (data_point (tasks s ! i)) V = Inr r"
      by (auto simp: returns_ok_def failed_attempts_def)
  qed
  from 1 2 3 4 show "results s = concat (map (\<lambda>i. contribution (tasks s ! i)) (drained s))
     \<and> distinct (drained s)
     \<and> (crashed s = None \<longrightarrow> to_cancel s = [])
     \<and> (\<forall>i<length (tasks s).
          (contribution (tasks s ! i) = []
           \<or> map result_key (contribution (tasks s ! i)) = map (Pair (data_point (tasks s ! i))) V)
          \<and> backoffs_of i s = replicate (attempt (tasks s ! i)) (i, 100)
          \<and> (crashed s = None \<longrightarrow>
                (\<forall>k<failed_attempts (tasks s ! i). failed e V (data_point (tasks s ! i)) k))
          \<and> (pc (tasks s ! i) = Evaluating
                \<and> (attempt_fails e V s i \<or> i \<in> set (to_cancel s)) \<longrightarrow>
               (\<exists>s'. step e V tot (Task i) s = Some s'
                  \<and> pc (tasks s' ! i) = Sleeping
                  \<and> slot (tasks s' ! i)
                  \<and> data_point (tasks s' ! i) = data_point (tasks s ! i)
                  \<and> attempt (tasks s' ! i) = attempt (tasks s ! i)
                  \<and> printed s' = printed s @ [i]
                  \<and> results s' = results s \<and> budget_log s' = budget_log s
                  \<and> completed s' = completed s))
          \<and> (pc (tasks s ! i) = Sleeping \<and> i \<notin> set (to_cancel s) \<longrightarrow>
               step e V tot (Task i) s = Some (retry i s)
               \<and> pc (tasks (retry i s) ! i) = Drawing
               \<and> data_point (tasks (retry i s) ! i) = data_point (tasks s ! i)
               \<and> attempt (tasks (retry i s) ! i) = Suc (attempt (tasks s ! i))
               \<and> backoffs (retry i s) = backoffs s @ [(i, 100)])
          \<and> (pc (tasks s ! i) = Drawing \<and> i \<notin> set (to_cancel s)
                \<and> \<not> wait_raises e (data_point (tasks s ! i)) (attempt (tasks s ! i)) \<longrightarrow>
               (\<exists>s'. step e V tot (Task i) s = Some s'
                  \<and> pc (tasks s' ! i) = Evaluating
                  \<and> data_point (tasks s' ! i) = data_point (tasks s ! i)
                  \<and> attempt (tasks s' ! i) = attempt (tasks s ! i)))
          \<and> (\<forall>rs. pc (tasks s ! i) = Evaluating \<and> i \<notin> set (to_cancel s)
                \<and> aparallel_task e (attempt (tasks s ! i)) (data_point (tasks s ! i)) V
                    = Inr (Some rs) \<longrightarrow>
               (\<exists>s'. step e V tot (Task i) s = Some s'
                  \<and> pc (tasks s' ! i) = Returned (Some rs)
                  \<and> completed s' = completed s @ [i]))
          \<and> (\<forall>r. pc (tasks s ! i) = Returned r \<longrightarrow>
               failed_attempts (tasks s ! i) = attempt (tasks s ! i)
               \<and> aparallel_task e (attempt (tasks s ! i)) (data_point (tasks s ! i)) V = Inr r))"
    by blast
qed

theorem retry_atomicity_witness:
  "(\<exists>s s'. exec limited_twice [5, 6] 2 [Task 0, Task 0] (init [[1]]) = Some s
      \<and> pc (tasks s ! 0) = Evaluating \<and> attempt_fails limited_twice [5, 6] s 0
      \<and> step limited_twice [5, 6] 2 (Task 0) s = Some s'
      \<and> pc (tasks s' ! 0) = Sleeping \<and> slot (tasks s' ! 0) \<and> printed s' = [0]
      \<and> step limited_twice [5, 6] 2 (Task 0) s' = Some (retry 0 s')
      \<and> pc (tasks (retry 0 s') ! 0) = Drawing
      \<and> data_point (tasks (retry 0 s') ! 0) = 1
      \<and> attempt (tasks (retry 0 s') ! 0) = 1
      \<and> backoffs (retry 0 s') = [(0, 100)])
   \<and> (\<exists>s. exec limited_twice [5, 6] 2
          [Task 0, Task 0, Task 0, Task 0, Task 0, Task 0, Task 0, Task 0, Task 0, Main]
          (init [[1]]) = Some s
      \<and> results s = [\<lparr>input_data = 1, combination = 5, raw_output = 6, token_usage = 7\<rparr>,
                      \<lparr>input_data = 1, combination = 6, raw_output = 7, token_usage = 7\<rparr>]
      \<and> results s = contribution (tasks s ! 0)
      \<and> map result_key (contribution (tasks s ! 0)) = [(1, 5), (1, 6)]
      \<and> drained s = [0]
      \<and> attempt (tasks s ! 0) = 2
      \<and> backoffs_of 0 s = [(0, 100), (0, 100)]
      \<and> failed limited_twice [5, 6] 1 0 \<and> failed limited_twice [5, 6] 1 1)
   \<and> (\<exists>s s'. exec budget_down_for_one [5, 6] 4 [Task 0, Task 1, Task 1, Task 0, Main]
          (init [[1, 2]]) = Some s
      \<and> crashed s = Some BudgetError \<and> to_cancel s = [1]
      \<and> pc (tasks s ! 1) = Evaluating
      \<and> \<not> attempt_fails budget_down_for_one [5, 6] s 1
      \<and> step budget_down_for_one [5, 6] 4 (Task 1) s = Some s'
      \<and> pc (tasks s' ! 1) = Sleeping \<and> printed s' = [1])"
proof -
  \<comment> \<open>a failed attempt, the handler and the retry\<close>
  let ?r0 = "exec limited_twice [5, 6] 2 [Task 0, Task 0] (init [[1]])"
  have "?r0 \<noteq> None" by code_simp
  then obtain s0 where r0: "?r0 = Some s0" by blast
  have "map_option (\<lambda>s. (pc (tasks s ! 0), attempt_fails limited_twice [5, 6] s 0,
            length (tasks s), printed s, data_point (tasks s ! 0), attempt (tasks s ! 0),
            to_cancel s, backoffs s)) ?r0
      = Some (Evaluating, True, 1, [], 1, 0, [], [])"
    by code_simp
  with r0 have s0: "pc (tasks s0 ! 0) = Evaluating" "attempt_fails limited_twice [5, 6] s0 0"
    "0 < length (tasks s0)" "printed s0 = []" "data_point (tasks s0 ! 0) = 1"
    "attempt (tasks s0 ! 0) = 0" "to_cancel s0 = []" "backoffs s0 = []"
    by simp_all
  note t0 = retry_atomicity[of limited_twice "[5, 6]" 2 "[Task 0, Task 0]" "[[1]]" s0]
  from t0 r0 s0(3) have "pc (tasks s0 ! 0) = Evaluating
                \<and> (attempt_fails limited_twice [5, 6] s0 0 \<or> 0 \<in> set (to_cancel s0)) \<longrightarrow>
               (\<exists>s'. step limited_twice [5, 6] 2 (Task 0) s0 = Some s'
                  \<and> pc (tasks s' ! 0) = Sleeping
                  \<and> slot (tasks s' ! 0)
                  \<and> data_point (tasks s' ! 0) = data_point (tasks s0 ! 0)
                  \<and> attempt (tasks s' ! 0) = attempt (tasks s0 ! 0)
                  \<and> printed s' = printed s0 @ [0]
                  \<and> results s' = results s0 \<and> budget_log s' = budget_log s0
                  \<and> completed s' = completed s0)"
    by blast
  with s0 obtain s1 where st0: "step limited_twice [5, 6] 2 (Task 0) s0 = Some s1"
    and s1: "pc (tasks s1 ! 0) = Sleeping" "slot (tasks s1 ! 0)" "printed s1 = [0]"
      "data_point (tasks s1 ! 0) = 1" "attempt (tasks s1 ! 0) = 0"
    by auto
  have r1: "exec limited_twice [5, 6] 2 ([Task 0, Task 0] @ [Task 0]) (init [[1]]) = Some s1"
    using r0 st0 by (simp only: exec_append exec.simps option.case)
  have l1: "0 < length (tasks s1)" using length_tasks_step[OF st0] s0(3) by simp
  have c1: "to_cancel s1 = [] \<and> backoffs s1 = []"
  proof -
    have "map_option (\<lambda>s. (to_cancel s, backoffs s))
        (exec limited_twice [5, 6] 2 ([Task 0, Task 0] @ [Task 0]) (init [[1]])) = Some ([], [])"
      by code_simp
    with r1 show ?thesis by simp
  qed
  from retry_atomicity[of limited_twice "[5, 6]" 2 "[Task 0, Task 0] @ [Task 0]" "[[1]]" s1] r1 l1
  have "pc (tasks s1 ! 0) = Sleeping \<and> 0 \<notin> set (to_cancel s1) \<longrightarrow>
               step limited_twice [5, 6] 2 (Task 0) s1 = Some (retry 0 s1)
               \<and> pc (tasks (retry 0 s1) ! 0) = Drawing
               \<and> data_point (tasks (retry 0 s1) ! 0) = data_point (tasks s1 ! 0)
               \<and> attempt (tasks (retry 0 s1) ! 0) = Suc (attempt (tasks s1 ! 0))
               \<and> backoffs (retry 0 s1) = backoffs s1 @ [(0, 100)]"
    by blast
  with s1 c1 have w1: "step limited_twice [5, 6] 2 (Task 0) s1 = Some (retry 0 s1)
      \<and> pc (tasks (retry 0 s1) ! 0) = Drawing
      \<and> data_point (tasks (retry 0 s1) ! 0) = 1
      \<and> attempt (tasks (retry 0 s1) ! 0) = 1
      \<and> backoffs (retry 0 s1) = [(0, 100)]"
    by simp
  from r0 s0(1,2) st0 s1(1-3) w1
  have A: "\<exists>s s'. exec limited_twice [5, 6] 2 [Task 0, Task 0] (init [[1]]) = Some s
      \<and> pc (tasks s ! 0) = Evaluating \<and> attempt_fails limited_twice [5, 6] s 0
      \<and> step limited_twice [5, 6] 2 (Task 0) s = Some s'
      \<and> pc (tasks s' ! 0) = Sleeping \<and> slot (tasks s' ! 0) \<and> printed s' = [0]
      \<and> step limited_twice [5, 6] 2 (Task 0) s' = Some (retry 0 s')
      \<and> pc (tasks (retry 0 s') ! 0) = Drawing
      \<and> data_point (tasks (retry 0 s') ! 0) = 1
      \<and> attempt (tasks (retry 0 s') ! 0) = 1
      \<and> backoffs (retry 0 s') = [(0, 100)]"
    by blast
  \<comment> \<open>the whole run\<close>
  let ?run = "exec limited_twice [5, 6] 2
          [Task 0, Task 0, Task 0, Task 0, Task 0, Task 0, Task 0, Task 0, Task 0, Main]
          (init [[1]])"
  let ?rs = "[\<lparr>input_data = 1, combination = 5, raw_output = 6, token_usage = 7\<rparr>,
              \<lparr>input_data = 1, combination = 6, raw_output = 7, token_usage = 7\<rparr>]"
  have "?run \<noteq> None" by code_simp
  then obtain s where r: "?run = Some s" by blast
  have "map_option (\<lambda>s. (results s, drained s, attempt (tasks s ! 0), pc (tasks s ! 0),
            length (tasks s), data_point (tasks s ! 0), crashed s)) ?run
      = Some (?rs, [0], 2, Returned (Some ?rs), 1, 1, None)"
    by code_simp
  with r have f: "results s = ?rs" "drained s = [0]" "attempt (tasks s ! 0) = 2"
    "pc (tasks s ! 0) = Returned (Some ?rs)" "0 < length (tasks s)"
    "data_point (tasks s ! 0) = 1" "crashed s = None"
    by simp_all
  from retry_atomicity[of limited_twice "[5, 6]" 2 _ "[[1]]" s] r
  have a: "results s = concat (map (\<lambda>i. contribution (tasks s ! i)) (drained s))"
    and b: "\<forall>i<length (tasks s).
          (contribution (tasks s ! i) = []
           \<or> map result_key (contribution (tasks s ! i)) = map (Pair (data_point (tasks s ! i))) [5, 6])
          \<and> backoffs_of i s = replicate (attempt (tasks s ! i)) (i, 100)
          \<and> (crashed s = None \<longrightarrow>
                (\<forall>k<failed_attempts (tasks s ! i). failed limited_twice [5, 6] (data_point (tasks s ! i)) k))
          \<and> (\<forall>r. pc (tasks s ! i) = Returned r \<longrightarrow>
               failed_attempts (tasks s ! i) = attempt (tasks s ! i))"
    by blast+
  from a f(2) have c: "results s = contribution (tasks s ! 0)" by simp
  from b f(5) c f(1,6) have k: "map result_key (contribution (tasks s ! 0)) = [(1, 5), (1, 6)]"
    by auto
  from b f(5) f(3) have bo: "backoffs_of 0 s = [(0, 100), (0, 100)]"
    by (simp add: numeral_2_eq_2)
  from b f(5) f(4) f(3) have fa: "failed_attempts (tasks s ! 0) = 2" by simp
  from b f(5) f(7)
  have "\<forall>k<failed_attempts (tasks s ! 0). failed limited_twice [5, 6] (data_point (tasks s ! 0)) k"
    by blast
  with fa f(6) have "\<forall>k<2. failed limited_twice [5, 6] 1 k" by simp
  then have fl: "failed limited_twice [5, 6] 1 0 \<and> failed limited_twice [5, 6] 1 1"
    by simp
  from r f(1) c k f(2,3) bo fl
  have B: "\<exists>s. ?run = Some s
      \<and> results s = ?rs
      \<and> results s = contribution (tasks s ! 0)
      \<and> map result_key (contribution (tasks s ! 0)) = [(1, 5), (1, 6)]
      \<and> drained s = [0]
      \<and> attempt (tasks s ! 0) = 2
      \<and> backoffs_of 0 s = [(0, 100), (0, 100)]
      \<and> failed limited_twice [5, 6] 1 0 \<and> failed limited_twice [5, 6] 1 1"
    by (intro exI[of _ s]) simp
  \<comment> \<open>a cancelled attempt\<close>
  let ?rc = "exec budget_down_for_one [5, 6] 4 [Task 0, Task 1, Task 1, Task 0, Main]
          (init [[1, 2]])"
  have "?rc \<noteq> None" by code_simp
  then obtain u where rc: "?rc = Some u" by blast
  have "map_option (\<lambda>s. (crashed s, to_cancel s, pc (tasks s ! 1),
            attempt_fails budget_down_for_one [5, 6] s 1, length (tasks s), printed s)) ?rc
      = Some (Some BudgetError, [1], Evaluating, False, 2, [])"
    by code_simp
  with rc have u: "crashed u = Some BudgetError" "to_cancel u = [1]"
    "pc (tasks u ! 1) = Evaluating" "\<not> attempt_fails budget_down_for_one [5, 6] u 1"
    "1 < length (tasks u)" "printed u = []"
    by simp_all
  from retry_atomicity[of budget_down_for_one "[5, 6]" 4 _ "[[1, 2]]" u] rc u(5)
  have "pc (tasks u ! 1) = Evaluating
                \<and> (attempt_fails budget_down_for_one [5, 6] u 1 \<or> 1 \<in> set (to_cancel u)) \<longrightarrow>
               (\<exists>s'. step budget_down_for_one [5, 6] 4 (Task 1) u = Some s'
                  \<and> pc (tasks s' ! 1) = Sleeping
                  \<and> slot (tasks s' ! 1)
                  \<and> data_point (tasks s' ! 1) = data_point (tasks u ! 1)
                  \<and> attempt (tasks s' ! 1) = attempt (tasks u ! 1)
                  \<and> printed s' = printed u @ [1]
                  \<and> results s' = results u \<and> budget_log s' = budget_log u
                  \<and> completed s' = completed u)"
    by blast
  with u obtain u' where "step budget_down_for_one [5, 6] 4 (Task 1) u = Some u'"
    "pc (tasks u' ! 1) = Sleeping" "printed u' = [1]"
    by auto
  with rc u have C: "\<exists>s s'. ?rc = Some s
      \<and> crashed s = Some BudgetError \<and> to_cancel s = [1]
      \<and> pc (tasks s ! 1) = Evaluating
      \<and> \<not> attempt_fails budget_down_for_one [5, 6] s 1
      \<and> step budget_down_for_one [5, 6] 4 (Task 1) s = Some s'
      \<and> pc (tasks s' ! 1) = Sleeping \<and> printed s' = [1]"
    by blast
  from A B C show ?thesis by blast
qed

section \<open>Admission\<close>

lemma draw_holds_slot:
  assumes "step e V tot a s = Some s'" "budget_log s' = budget_log s @ [Wait i]"
    and "slots_ok s"
  shows "a = Task i \<and> slot (tasks s ! i) \<and> slot (tasks s' ! i)"
  using assms(1)
proof (cases rule: stepE)
  case (draw j)
  with assms(2,3) show ?thesis
    by (auto simp: slots_ok_def in_section_def)
next
  case (return_reported j rs)
  with assms(2) show ?thesis by (cases rs) auto
qed (use assms(2) in auto)

text \<open>
  Claim C4: in both scheduling variants, at every instant of a run the number of tasks
  past the admission controller never exceeds the ceiling (20 for the semaphore of the
  cooperative scheduler, the number of threads for the pool), and no task draws from the
  rate limiter without holding an admission slot.

  For every state that a run of the cooperative scheduler reaches, under any schedule:
  at most 20 tasks are inside the evaluation section, the slots handed out and the value
  of the semaphore add up to 20, and a step in which the rate limiter receives the
  \<^verbatim>\<open>wait\<close> of task \<open>i\<close> is a step of task \<open>i\<close>, which holds a slot before and after it.
  For every state that the pool reaches: at most \<open>w\<close> jobs are on a worker thread, and a
  step that draws from a rate limiter is the step of a job on a worker thread.
\<close>

theorem admission_invariant:
  "(exec e V tot sched (init b) = Some s \<longrightarrow>
      length (filter in_section (tasks s)) \<le> 20
      \<and> holders s \<le> 20
      \<and> semaphore s + holders s = 20
      \<and> (\<forall>a s' i. step e V tot a s = Some s' \<and> budget_log s' = budget_log s @ [Wait i]
            \<longrightarrow> a = Task i \<and> slot (tasks s ! i) \<and> slot (tasks s' ! i)))
   \<and> (pool_exec w e V js (pool_init data) = Some p \<longrightarrow>
      length (filter on_worker (jobs p)) \<le> w
      \<and> (\<forall>j p'. pool_step w e V j p = Some p' \<and> draws p' \<noteq> draws p
            \<longrightarrow> on_worker (jobs p ! j) \<and> on_worker (jobs p' ! j)))"
proof (intro conjI impI)
  assume run: "exec e V tot sched (init b) = Some s"
  from slots_ok_exec[OF run] have ok: "slots_ok s" .
  then show sem: "semaphore s + holders s = 20" by (simp add: slots_ok_def)
  then show "holders s \<le> 20" by simp
  from ok have "filter in_section (tasks s) = filter slot (tasks s)"
    by (auto simp: slots_ok_def in_set_conv_nth intro!: filter_cong)
  with sem show "length (filter in_section (tasks s)) \<le> 20"
    by (simp add: holders_def)
  show "\<forall>a s' i. step e V tot a s = Some s' \<and> budget_log s' = budget_log s @ [Wait i]
            \<longrightarrow> a = Task i \<and> slot (tasks s ! i) \<and> slot (tasks s' ! i)"
    using draw_holds_slot[OF _ _ ok] by blast
next
  assume run: "pool_exec w e V js (pool_init data) = Some p"
  from pool_exec_workers[OF run] show "length (filter on_worker (jobs p)) \<le> w"
    by (simp add: pool_init_workers)
  show "\<forall>j p'. pool_step w e V j p = Some p' \<and> draws p' \<noteq> draws p
            \<longrightarrow> on_worker (jobs p ! j) \<and> on_worker (jobs p' ! j)"
    using pool_draw_on_worker by blast
qed

theorem admission_invariant_witness:
  "(\<exists>s s'. exec steady [5] 1 [Task 0] (init [[1]]) = Some s
      \<and> step steady [5] 1 (Task 0) s = Some s'
      \<and> budget_log s' = budget_log s @ [Wait 0]
      \<and> holders s \<le> 20 \<and> slot (tasks s ! 0) \<and> slot (tasks s' ! 0))
   \<and> (\<exists>p p'. pool_exec 2 steady [5] [0, 1] (pool_init [1, 2, 3]) = Some p
      \<and> pool_step 2 steady [5] 0 p = Some p'
      \<and> draws p' \<noteq> draws p
      \<and> length (filter on_worker (jobs p)) \<le> 2 \<and> on_worker (jobs p ! 0))"
proof -
  let ?s = "goto 0 Drawing (acquire 0 (init [[1]]))"
  let ?s' = "goto 0 Evaluating (?s\<lparr>budget_log := budget_log ?s @ [Wait 0]\<rparr>)"
  let ?p = "\<lparr>jobs = [\<lparr>job_datum = 1, job_pc = Limiting\<rparr>, \<lparr>job_datum = 2, job_pc = Limiting\<rparr>,
                    \<lparr>job_datum = 3, job_pc = Queued\<rparr>], draws = []\<rparr>"
  let ?p' = "\<lparr>jobs = [\<lparr>job_datum = 1, job_pc = Working\<rparr>, \<lparr>job_datum = 2, job_pc = Limiting\<rparr>,
                    \<lparr>job_datum = 3, job_pc = Queued\<rparr>], draws = [0]\<rparr>"
  have r: "exec steady [5] 1 [Task 0] (init [[1]]) = Some ?s" by code_simp
  have st: "step steady [5] 1 (Task 0) ?s = Some ?s'" by code_simp
  have lg: "budget_log ?s' = budget_log ?s @ [Wait 0]" by simp
  have pr: "pool_exec 2 steady [5] [0, 1] (pool_init [1, 2, 3]) = Some ?p" by code_simp
  have ps: "pool_step 2 steady [5] 0 ?p = Some ?p'" by code_simp
  have pd: "draws ?p' \<noteq> draws ?p" by simp
  from admission_invariant[of steady "[5]" 1 "[Task 0]" "[[1]]" ?s 2 "[0, 1]" "[1, 2, 3]" ?p]
    r pr
  have a: "holders ?s \<le> 20"
    and b: "\<forall>a s' i. step steady [5] 1 a ?s = Some s' \<and> budget_log s' = budget_log ?s @ [Wait i]
            \<longrightarrow> a = Task i \<and> slot (tasks ?s ! i) \<and> slot (tasks s' ! i)"
    and c: "length (filter on_worker (jobs ?p)) \<le> 2"
    and d: "\<forall>j p'. pool_step 2 steady [5] j ?p = Some p' \<and> draws p' \<noteq> draws ?p
            \<longrightarrow> on_worker (jobs ?p ! j) \<and> on_worker (jobs p' ! j)"
    by blast+
  from b st lg have e: "slot (tasks ?s ! 0) \<and> slot (tasks ?s' ! 0)" by blast
  from d ps pd have f: "on_worker (jobs ?p ! 0)" by blast
  from r st lg a e have 1: "\<exists>s s'. exec steady [5] 1 [Task 0] (init [[1]]) = Some s
      \<and> step steady [5] 1 (Task 0) s = Some s'
      \<and> budget_log s' = budget_log s @ [Wait 0]
      \<and> holders s \<le> 20 \<and> slot (tasks s ! 0) \<and> slot (tasks s' ! 0)"
    by blast
  from pr ps pd c f have 2: "\<exists>p p'. pool_exec 2 steady [5] [0, 1] (pool_init [1, 2, 3]) = Some p
      \<and> pool_step 2 steady [5] 0 p = Some p'
      \<and> draws p' \<noteq> draws p
      \<and> length (filter on_worker (jobs p)) \<le> 2 \<and> on_worker (jobs p ! 0)"
    by blast
  from 1 2 show ?thesis by blast
qed

section \<open>Cost reporting\<close>

text \<open>
  Claim C5: every successful attempt in the cooperative scheduler, including that of the
  first task to complete, reports the token usage of each of its results to the rate
  limiter before it returns.

  The code does not do so for a task that completes while the list \<^verbatim>\<open>results\<close> of the
  enclosing function is still empty, because the guard \<^verbatim>\<open>if results:\<close> reads that list and
  not the local \<^verbatim>\<open>resutls\<close>.  With one data point and one combination the task succeeds
  with a result whose token usage is 7, the run returns it, and the only call the rate
  limiter has received is the \<^verbatim>\<open>wait\<close> of the task: there is no \<^verbatim>\<open>add_tokens\<close>.
\<close>

theorem first_completion_reports_no_cost:
  "aprocess_dataset steady [[1]] [5] [Task 0, Task 0, Task 0, Main]
     = Some (Inr [\<lparr>input_data = 1, combination = 5, raw_output = 6, token_usage = 7\<rparr>])
   \<and> map_option budget_log (exec steady [5] 1 [Task 0, Task 0, Task 0, Main] (init [[1]]))
     = Some [Wait 0]"
  by code_simp

section \<open>Equivalence of the two schedulers\<close>

text \<open>
  Claim C6: for every data set and every variation set, if no evaluation fails, the
  cooperative scheduler \<^verbatim>\<open>_aprocess_dataset\<close> and the thread-pool scheduler
  \<^verbatim>\<open>_process_dataset\<close> produce result collections with the same set of (datum,
  variation) keys, differing at most in order.

  The code does not do so when there is no combination.  For the batches \<open>[1, 2]\<close> and
  \<open>[3]\<close> the thread-pool scheduler returns the empty list, which has the keys the claim
  asks for.  In the cooperative scheduler every task returns \<^verbatim>\<open>None\<close>, because
  \<^verbatim>\<open>aparallel_task\<close> falls off the end of \<^verbatim>\<open>for _ in all_combinations:\<close> where
  \<^verbatim>\<open>parallel_task\<close> returns what \<^verbatim>\<open>run_single_input\<close> gives, and the first
  \<^verbatim>\<open>results.extend(await future)\<close> raises a \<^verbatim>\<open>TypeError\<close>: whether the three tasks have all
  completed or only the first, the run ends with that exception and produces no
  collection.
\<close>

theorem schedulers_differ_without_combinations:
  "process_dataset steady [[1, 2], [3]] [] = Inr []
   \<and> aprocess_dataset steady [[1, 2], [3]] []
        [Task 0, Task 1, Task 2, Task 0, Task 1, Task 2, Task 2, Task 0, Task 1, Main]
       = Some (Inl TypeError)
   \<and> asyncio_run steady [[1, 2], [3]] []
        [Task 0, Task 1, Task 2, Task 0, Task 1, Task 2, Task 2, Task 0, Task 1, Main]
       = Some (Inl TypeError)
   \<and> aprocess_dataset steady [[1, 2], [3]] [] [Task 0, Task 0, Task 0, Main]
       = Some (Inl TypeError)
   \<and> map_option (\<lambda>s. map pc (tasks s))
        (exec steady [] 0 [Task 0, Task 1, Task 2, Task 0, Task 1, Task 2, Task 2, Task 0, Task 1]
           (init [[1, 2], [3]]))
       = Some [Returned None, Returned None, Returned None]"
  by code_simp

section \<open>Release of the admission slot\<close>

lemma exit_releases:
  assumes "step e V tot a s = Some s'" "slots_ok s" "i < length (tasks s)"
    and "slot (tasks s ! i)" "finished (tasks s' ! i)"
  shows "\<not> slot (tasks s' ! i) \<and> semaphore s' = Suc (semaphore s)"
proof -
  from assms(2-4) have sec: "in_section (tasks s ! i)" by (simp add: slots_ok_def)
  then have nf: "\<not> finished (tasks s ! i)"
    by (auto simp: in_section_def finished_def)
  from assms(1) show ?thesis
  proof (cases rule: stepE)
    case (draw_raises j)
    with assms(3,5) nf show ?thesis by (cases "i = j") auto
  next
    case (return_reported j rs)
    with assms(3,5) nf show ?thesis by (cases "i = j") auto
  next
    case (return_silent j r)
    with assms(3,5) nf show ?thesis by (cases "i = j") auto
  next
    case (cancel_pending j)
    with assms(3,5) nf sec show ?thesis
      by (cases "i = j") (auto simp: in_section_def)
  next
    case (cancel_drawing j)
    with assms(3,5) nf show ?thesis by (cases "i = j") auto
  next
    case (cancel_sleeping j)
    with assms(3,5) nf show ?thesis by (cases "i = j") auto
  qed (use assms(3,5) nf in \<open>auto simp: nth_list_update split: if_splits\<close>)
qed

text \<open>
  Claim C7: in the cooperative scheduler every task that acquires an admission slot
  releases it on every exit path, the normal return and any path that leaves the retry
  loop, so no execution of \<^verbatim>\<open>eval_fn_with_semaphore\<close> ends while it holds a slot.

  In every state that a run reaches, the slots held and the value of the semaphore add
  up to 20, no coroutine that has ended (by \<^verbatim>\<open>return\<close> or by an exception) holds a slot,
  and a step in which a slot holder ends gives its slot back to the semaphore.
\<close>

theorem slot_released_on_exit:
  "exec e V tot sched (init b) = Some s \<longrightarrow>
     semaphore s + holders s = 20
     \<and> (\<forall>i<length (tasks s). finished (tasks s ! i) \<longrightarrow> \<not> slot (tasks s ! i))
     \<and> (\<forall>a s' i. step e V tot a s = Some s' \<and> i < length (tasks s)
           \<and> slot (tasks s ! i) \<and> finished (tasks s' ! i)
         \<longrightarrow> \<not> slot (tasks s' ! i) \<and> semaphore s' = Suc (semaphore s))"
proof (intro impI conjI)
  assume run: "exec e V tot sched (init b) = Some s"
  from slots_ok_exec[OF run] have ok: "slots_ok s" .
  then show "semaphore s + holders s = 20" by (simp add: slots_ok_def)
  from ok show "\<forall>i<length (tasks s). finished (tasks s ! i) \<longrightarrow> \<not> slot (tasks s ! i)"
    by (auto simp: slots_ok_def in_section_def finished_def)
  show "\<forall>a s' i. step e V tot a s = Some s' \<and> i < length (tasks s)
           \<and> slot (tasks s ! i) \<and> finished (tasks s' ! i)
         \<longrightarrow> \<not> slot (tasks s' ! i) \<and> semaphore s' = Suc (semaphore s)"
    using exit_releases[OF _ ok] by blast
qed

theorem slot_released_on_exit_witness:
  "(\<exists>s s'. exec steady [5] 1 [Task 0, Task 0] (init [[1]]) = Some s
      \<and> step steady [5] 1 (Task 0) s = Some s'
      \<and> slot (tasks s ! 0) \<and> finished (tasks s' ! 0)
      \<and> \<not> slot (tasks s' ! 0) \<and> semaphore s' = Suc (semaphore s))
   \<and> (\<exists>s s'. exec budget_down [5] 1 [Task 0] (init [[1]]) = Some s
      \<and> step budget_down [5] 1 (Task 0) s = Some s'
      \<and> slot (tasks s ! 0) \<and> pc (tasks s' ! 0) = Raised BudgetError
      \<and> \<not> slot (tasks s' ! 0) \<and> semaphore s' = Suc (semaphore s))"
proof -
  let ?s1 = "goto 0 Drawing (acquire 0 (init [[1]]))"
  let ?s = "goto 0 Evaluating (?s1\<lparr>budget_log := budget_log ?s1 @ [Wait 0]\<rparr>)"
  let ?s' = "finish 0 (Returned (Some [\<lparr>input_data = 1, combination = 5, raw_output = 6,
                token_usage = 7\<rparr>])) ?s"
  let ?t' = "finish 0 (Raised BudgetError) ?s1"
  have r: "exec steady [5] 1 [Task 0, Task 0] (init [[1]]) = Some ?s" by code_simp
  have st: "step steady [5] 1 (Task 0) ?s = Some ?s'" by code_simp
  have h: "slot (tasks ?s ! 0)" "finished (tasks ?s' ! 0)" "0 < length (tasks ?s)"
    by (simp_all add: finished_def)
  have r2: "exec budget_down [5] 1 [Task 0] (init [[1]]) = Some ?s1" by code_simp
  have st2: "step budget_down [5] 1 (Task 0) ?s1 = Some ?t'" by code_simp
  have h2: "slot (tasks ?s1 ! 0)" "finished (tasks ?t' ! 0)" "0 < length (tasks ?s1)"
    "pc (tasks ?t' ! 0) = Raised BudgetError"
    by (simp_all add: finished_def)
  from slot_released_on_exit[of steady "[5]" 1 "[Task 0, Task 0]" "[[1]]" ?s] r
  have "\<forall>a s' i. step steady [5] 1 a ?s = Some s' \<and> i < length (tasks ?s)
           \<and> slot (tasks ?s ! i) \<and> finished (tasks s' ! i)
         \<longrightarrow> \<not> slot (tasks s' ! i) \<and> semaphore s' = Suc (semaphore ?s)"
    by blast
  with st h have a: "\<not> slot (tasks ?s' ! 0) \<and> semaphore ?s' = Suc (semaphore ?s)"
    by blast
  from slot_released_on_exit[of budget_down "[5]" 1 "[Task 0]" "[[1]]" ?s1] r2
  have "\<forall>a s' i. step budget_down [5] 1 a ?s1 = Some s' \<and> i < length (tasks ?s1)
           \<and> slot (tasks ?s1 ! i) \<and> finished (tasks s' ! i)
         \<longrightarrow> \<not> slot (tasks s' ! i) \<and> semaphore s' = Suc (semaphore ?s1)"
    by blast
  with st2 h2 have b: "\<not> slot (tasks ?t' ! 0) \<and> semaphore ?t' = Suc (semaphore ?s1)"
    by blast
  from r st h a have 1: "\<exists>s s'. exec steady [5] 1 [Task 0, Task 0] (init [[1]]) = Some s
      \<and> step steady [5] 1 (Task 0) s = Some s'
      \<and> slot (tasks s ! 0) \<and> finished (tasks s' ! 0)
      \<and> \<not> slot (tasks s' ! 0) \<and> semaphore s' = Suc (semaphore s)"
    by blast
  from r2 st2 h2 b have 2: "\<exists>s s'. exec budget_down [5] 1 [Task 0] (init [[1]]) = Some s
      \<and> step budget_down [5] 1 (Task 0) s = Some s'
      \<and> slot (tasks s ! 0) \<and> pc (tasks s' ! 0) = Raised BudgetError
      \<and> \<not> slot (tasks s' ! 0) \<and> semaphore s' = Suc (semaphore s)"
    by blast
  from 1 2 show ?thesis by blast
qed

section \<open>Progress reporting\<close>

lemma task_step_progress:
  "task_step e V i (s\<lparr>progress := q\<rparr>) = map_option (progress_update (\<lambda>_. q)) (task_step e V i s)"
  by (simp add: task_step_def goto_def acquire_def finish_def release_def handler_def retry_def
      report_tokens_def Let_def split: pc.splits sum.splits option.splits)

lemma cancel_step_progress:
  "cancel_step i (s\<lparr>progress := q\<rparr>) = map_option (progress_update (\<lambda>_. q)) (cancel_step i s)"
  by (simp add: cancel_step_def goto_def finish_def release_def handler_def abandon_def
      delivered_def split: pc.splits)

lemma main_step_progress:
  "map_option silent (main_step t (s\<lparr>progress := q\<rparr>)) = map_option silent (main_step t' s)"
  by (simp add: main_step_def silent_def crash_def pending_futures_def Let_def
      split: list.splits pc.splits option.splits)

lemma silent_progress [simp]: "silent (s\<lparr>progress := q\<rparr>) = silent s"
  by (simp add: silent_def)

lemma step_progress:
  "map_option silent (step e V t a (s\<lparr>progress := q\<rparr>)) = map_option silent (step e V t' a s)"
proof (cases a)
  case (Task i)
  then show ?thesis
    by (simp add: step_def task_step_progress cancel_step_progress option.map_comp comp_def)
next
  case Main
  with main_step_progress[where t = t and s = s and q = q and t' = t'] show ?thesis
    by (simp add: step_def)
qed

lemma silent_eq:
  assumes "silent s1 = silent s2"
  shows "s1 = s2\<lparr>progress := progress s1\<rparr>"
proof -
  from assms have "(silent s1)\<lparr>progress := progress s1\<rparr> = (silent s2)\<lparr>progress := progress s1\<rparr>"
    by simp
  then show ?thesis by (simp add: silent_def)
qed

lemma exec_progress:
  "silent s1 = silent s2 \<Longrightarrow>
     map_option silent (exec e V t sched s1) = map_option silent (exec e V t' sched s2)"
proof (induction sched arbitrary: s1 s2)
  case Nil
  then show ?case by simp
next
  case (Cons a sched)
  from silent_eq[OF Cons.prems] step_progress[where e = e and V = V and t = t and a = a and s = s2 and q = "progress s1"
      and t' = t']
  have st: "map_option silent (step e V t a s1) = map_option silent (step e V t' a s2)"
    by simp
  show ?case
  proof (cases "step e V t a s1")
    case None
    with st show ?thesis by simp
  next
    case (Some u1)
    with st obtain u2 where u2: "step e V t' a s2 = Some u2" and eq: "silent u1 = silent u2"
      by (cases "step e V t' a s2") auto
    from Cons.IH[OF eq] Some u2 show ?thesis by simp
  qed
qed

lemma outcome_silent [simp]: "outcome (silent s) = outcome s"
  by (simp add: outcome_def silent_def split: option.splits)

lemma aprocess_body_progress:
  "aprocess_body x t e D V sched = aprocess_body x' t' e D V sched"
proof -
  have eq: "map_option silent (exec e V t sched (init D)) = map_option silent (exec e V t' sched (init D))"
    by (rule exec_progress) simp
  show ?thesis
  proof (cases "exec e V t sched (init D)")
    case None
    with eq show ?thesis by (simp add: aprocess_body_def)
  next
    case (Some u)
    with eq obtain u' where u': "exec e V t' sched (init D) = Some u'" and s: "silent u = silent u'"
      by (cases "exec e V t' sched (init D)") auto
    from s have "outcome (silent u) = outcome (silent u')" by simp
    with Some u' show ?thesis by (simp add: aprocess_body_def)
  qed
qed

text \<open>
  Claim C8: the total computed for progress reporting and the progress display have no
  effect on admission decisions or on the final result list: two runs that differ only in
  the progress sink and the value fed to it produce the same result collection, and the
  aggregate expression of line 62 is dead code.

  Whatever totals \<open>tot\<close> and \<open>tot'\<close> are handed to the progress bar, and whatever it has shown
  so far: the same schedules are possible and lead to states that differ at most in what
  the progress bar shows; a step is possible with one total exactly when it is with the
  other; and the outcome of \<^verbatim>\<open>_aprocess_dataset\<close> is that of its body run with any value
  for the expression of line 62 and any total.
\<close>

theorem progress_noninterference:
  "map_option silent (exec e V tot sched (init D)) = map_option silent (exec e V tot' sched (init D))
   \<and> map_option silent (step e V tot a (s\<lparr>progress := q\<rparr>)) = map_option silent (step e V tot' a s)
   \<and> (step e V tot a (s\<lparr>progress := q\<rparr>) = None) = (step e V tot' a s = None)
   \<and> aprocess_body line62 tot e D V sched = aprocess_body line62' tot' e D V sched
   \<and> aprocess_dataset e D V sched = aprocess_body line62' tot' e D V sched"
proof (intro conjI)
  show "map_option silent (exec e V tot sched (init D)) = map_option silent (exec e V tot' sched (init D))"
    by (rule exec_progress) simp
  show st: "map_option silent (step e V tot a (s\<lparr>progress := q\<rparr>)) = map_option silent (step e V tot' a s)"
    by (rule step_progress)
  from st show "(step e V tot a (s\<lparr>progress := q\<rparr>) = None) = (step e V tot' a s = None)"
    by (metis option.map_disc_iff)
  show "aprocess_body line62 tot e D V sched = aprocess_body line62' tot' e D V sched"
    by (rule aprocess_body_progress)
  show "aprocess_dataset e D V sched = aprocess_body line62' tot' e D V sched"
    unfolding aprocess_dataset_def by (rule aprocess_body_progress)
qed

theorem progress_noninterference_witness:
  "aprocess_dataset steady [[1, 2]] [5] [Task 0, Task 1, Task 0, Task 0, Main, Task 1, Task 1, Main]
     = aprocess_body 0 99 steady [[1, 2]] [5] [Task 0, Task 1, Task 0, Task 0, Main, Task 1, Task 1, Main]
   \<and> map_option progress (exec steady [5] 2 [Task 0, Task 0, Task 0, Main] (init [[1, 2]]))
       = Some [(1, 2)]
   \<and> map_option progress (exec steady [5] 99 [Task 0, Task 0, Task 0, Main] (init [[1, 2]]))
       = Some [(1, 99)]
   \<and> map_option silent (exec steady [5] 2 [Task 0, Task 0, Task 0, Main] (init [[1, 2]]))
       = map_option silent (exec steady [5] 99 [Task 0, Task 0, Task 0, Main] (init [[1, 2]]))"
proof -
  have "map_option progress (exec steady [5] 2 [Task 0, Task 0, Task 0, Main] (init [[1, 2]]))
       = Some [(1, 2)]"
    by code_simp
  moreover have "map_option progress (exec steady [5] 99 [Task 0, Task 0, Task 0, Main] (init [[1, 2]]))
       = Some [(1, 99)]"
    by code_simp
  ultimately show ?thesis
    using progress_noninterference[where e = steady and V = "[5]" and tot = 2 and tot' = 99
        and sched = "[Task 0, Task 0, Task 0, Main]" and D = "[[1, 2]]"]
      progress_noninterference[where e = steady and V = "[5]" and tot' = 99 and line62' = 0
        and sched = "[Task 0, Task 1, Task 0, Task 0, Main, Task 1, Task 1, Main]"
        and D = "[[1, 2]]"]
    by simp
qed

section \<open>The pickle file\<close>

lemma given_Some [simp]: "given (Some p) = (p \<noteq> [])"
  by (simp add: given_def)

lemma run_loads:
  assumes "source_type r = ''dataset'' \<or> source_type r = ''machine_generated''"
    and "given p" "fs (the p) = Some ex"
  shows "run r e sched fs display out p async =
     Some (Inr (if given out then fs(the out \<mapsto> ex) else fs,
                [Loaded (the p)] @ (if given out then [Dumped (the out)] else [])
                  @ (if display then [Displayed ex] else [])))"
  using assms by (auto simp: run_def)

lemma run_default_writes:
  assumes "source_type r = ''dataset'' \<or> source_type r = ''machine_generated''"
    and "run_default r e sched fs = Some (Inr (fs1, evs1))"
  shows "\<exists>ex. fs1 ''abc.pkl'' = Some ex \<and> last evs1 = Displayed ex"
  using assms
  by (auto simp: run_default_def run_def default_output_path_def default_display_def
      split: if_splits option.splits sum.splits prod.splits)

lemma first_default_run:
  "run_default batch_runner steady [] Map.empty =
     Some (Inr ([''abc.pkl'' \<mapsto>
                   \<lparr>exp_results = [\<lparr>input_data = 1, combination = 5, raw_output = 6, token_usage = 7\<rparr>,
                                   \<lparr>input_data = 2, combination = 5, raw_output = 7, token_usage = 7\<rparr>],
                      selection_output = None, improver_output = Some 3\<rparr>],
                [ReadersRegistered, DatasetProcessed False, ExperimentGenerated, Improved,
                 Dumped ''abc.pkl'',
                 Displayed
                   \<lparr>exp_results = [\<lparr>input_data = 1, combination = 5, raw_output = 6, token_usage = 7\<rparr>,
                                   \<lparr>input_data = 2, combination = 5, raw_output = 7, token_usage = 7\<rparr>],
                      selection_output = None, improver_output = Some 3\<rparr>]))"
  by (simp add: run_default_def run_def evaluate_def batch_runner_def steady_def plain_def
      process_dataset_def parallel_task_def default_output_path_def default_display_def
      default_experiment_input_path_def default_async_eval_def)

text \<open>
  Claim C9: if \<^verbatim>\<open>run\<close> is called with an \<^verbatim>\<open>experiment_input_path\<close> that names an existing
  file, the experiment is deserialized from that file and the whole evaluation pipeline
  (dataset processing, selection strategy, improver) is skipped; since the defaults of
  \<^verbatim>\<open>output_path\<close> and \<^verbatim>\<open>experiment_input_path\<close> are the same string, a second run with
  default arguments in the same directory reuses the serialized experiment of the first.

  As stated the claim fails for a runner whose source type is \<^verbatim>\<open>user_input\<close>: the file is
  there, and the run neither reads it nor shows its experiment; it displays an empty
  experiment.
\<close>

theorem pickle_short_circuit_counterexample:
  "given (Some ''abc.pkl'')
   \<and> [''abc.pkl'' \<mapsto> stored] ''abc.pkl'' = Some stored
   \<and> run interactive_runner steady [] [''abc.pkl'' \<mapsto> stored] True (Some ''abc.pkl'')
        (Some ''abc.pkl'') False
       = Some (Inr ([''abc.pkl'' \<mapsto> stored],
            [Displayed \<lparr>exp_results = [], selection_output = None, improver_output = None\<rparr>]))
   \<and> stored \<noteq> \<lparr>exp_results = [], selection_output = None, improver_output = None\<rparr>"
  by (simp add: run_def interactive_runner_def batch_runner_def stored_def)

text \<open>
  Claim C9, amended: for a runner whose source type is \<^verbatim>\<open>dataset\<close> or
  \<^verbatim>\<open>machine_generated\<close>, a run with an \<^verbatim>\<open>experiment_input_path\<close> that names an existing
  file loads the experiment from it and, apart from writing it to \<^verbatim>\<open>output_path\<close> and
  displaying it as asked, does nothing else: no reader is registered, no data set is
  processed, no selection and no improvement take place.  Both default paths are
  \<^verbatim>\<open>abc.pkl\<close>, so after a run with default arguments that has returned, a second run with
  default arguments, whatever the engine and the schedule, loads the experiment the first
  run displayed and wrote, and evaluates nothing.
\<close>

theorem pickle_short_circuit:
  assumes "source_type r = ''dataset'' \<or> source_type r = ''machine_generated''"
  shows "(given p \<and> fs (the p) = Some ex \<longrightarrow>
            run r e sched fs display out p async =
              Some (Inr (if given out then fs(the out \<mapsto> ex) else fs,
                [Loaded (the p)] @ (if given out then [Dumped (the out)] else [])
                  @ (if display then [Displayed ex] else []))))
    \<and> default_output_path = Some ''abc.pkl''
    \<and> default_experiment_input_path = Some ''abc.pkl''
    \<and> (run_default r e sched fs = Some (Inr (fs1, evs1)) \<longrightarrow>
          (\<exists>ex1. fs1 ''abc.pkl'' = Some ex1 \<and> last evs1 = Displayed ex1
             \<and> run_default r e' sched' fs1 =
                 Some (Inr (fs1, [Loaded ''abc.pkl'', Dumped ''abc.pkl'', Displayed ex1]))))"
proof (intro conjI impI)
  assume "given p \<and> fs (the p) = Some ex"
  with run_loads[OF assms] show "run r e sched fs display out p async =
              Some (Inr (if given out then fs(the out \<mapsto> ex) else fs,
                [Loaded (the p)] @ (if given out then [Dumped (the out)] else [])
                  @ (if display then [Displayed ex] else [])))"
    by blast
next
  show "default_output_path = Some ''abc.pkl''" by (simp add: default_output_path_def)
  show "default_experiment_input_path = Some ''abc.pkl''"
    by (simp add: default_experiment_input_path_def)
next
  assume "run_default r e sched fs = Some (Inr (fs1, evs1))"
  from run_default_writes[OF assms this] obtain ex1
    where f: "fs1 ''abc.pkl'' = Some ex1" and l: "last evs1 = Displayed ex1"
    by blast
  have "given (Some ''abc.pkl'')" by simp
  from run_loads[OF assms this, of fs1 ex1 e' sched' True "Some ''abc.pkl''" False] f
  have "run_default r e' sched' fs1 =
      Some (Inr (fs1, [Loaded ''abc.pkl'', Dumped ''abc.pkl'', Displayed ex1]))"
    by (simp add: run_default_def default_output_path_def default_display_def
        default_experiment_input_path_def default_async_eval_def fun_upd_idem)
  with f l show "\<exists>ex1. fs1 ''abc.pkl'' = Some ex1 \<and> last evs1 = Displayed ex1
             \<and> run_default r e' sched' fs1 =
                 Some (Inr (fs1, [Loaded ''abc.pkl'', Dumped ''abc.pkl'', Displayed ex1]))"
    by blast
qed

theorem pickle_short_circuit_witness:
  "source_type batch_runner = ''dataset''
   \<and> given (Some ''saved.pkl'')
   \<and> [''saved.pkl'' \<mapsto> stored] (the (Some ''saved.pkl'')) = Some stored
   \<and> run batch_runner steady [] [''saved.pkl'' \<mapsto> stored] True None (Some ''saved.pkl'') True
       = Some (Inr ([''saved.pkl'' \<mapsto> stored], [Loaded ''saved.pkl'', Displayed stored]))
   \<and> (\<exists>fs1 evs1 ex1. run_default batch_runner steady [] Map.empty = Some (Inr (fs1, evs1))
        \<and> DatasetProcessed False \<in> set evs1
        \<and> fs1 ''abc.pkl'' = Some ex1
        \<and> run_default batch_runner broken_once [Main] fs1
            = Some (Inr (fs1, [Loaded ''abc.pkl'', Dumped ''abc.pkl'', Displayed ex1])))"
proof -
  have src: "source_type batch_runner = ''dataset'' \<or> source_type batch_runner = ''machine_generated''"
    by (simp add: batch_runner_def)
  have g: "given (Some ''saved.pkl'')" by simp
  have f: "[''saved.pkl'' \<mapsto> stored] (the (Some ''saved.pkl'')) = Some stored" by simp
  note t = pickle_short_circuit[OF src]
  from t[of "Some ''saved.pkl''" "[''saved.pkl'' \<mapsto> stored]" stored steady "[]" True None True]
    g f
  have 1: "run batch_runner steady [] [''saved.pkl'' \<mapsto> stored] True None (Some ''saved.pkl'') True
       = Some (Inr ([''saved.pkl'' \<mapsto> stored], [Loaded ''saved.pkl'', Displayed stored]))"
    by (simp add: given_def)
  from first_default_run obtain fs1 evs1 where
    r: "run_default batch_runner steady [] Map.empty = Some (Inr (fs1, evs1))"
    and d: "DatasetProcessed False \<in> set evs1"
    by simp
  from t[where e = steady and sched = "[]" and fs = Map.empty and ?fs1.0 = fs1 and ?evs1.0 = evs1
      and e' = broken_once and sched' = "[Main]"] r
  obtain ex1 where "fs1 ''abc.pkl'' = Some ex1"
    "run_default batch_runner broken_once [Main] fs1
            = Some (Inr (fs1, [Loaded ''abc.pkl'', Dumped ''abc.pkl'', Displayed ex1]))"
    by blast
  with r d have 2: "\<exists>fs1 evs1 ex1. run_default batch_runner steady [] Map.empty = Some (Inr (fs1, evs1))
        \<and> DatasetProcessed False \<in> set evs1
        \<and> fs1 ''abc.pkl'' = Some ex1
        \<and> run_default batch_runner broken_once [Main] fs1
            = Some (Inr (fs1, [Loaded ''abc.pkl'', Dumped ''abc.pkl'', Displayed ex1]))"
    by blast
  from src g f 1 2 show ?thesis by (simp add: batch_runner_def)
qed

section \<open>No variation combination\<close>






end
